theory Spec2Isabelle
  imports Main "HOL-Library.Multiset"
begin

section \<open>TreeFlattener: \<open>getAllNodesInSelection\<close>\<close>

text \<open>
  A scene node as the flattener sees it: the node's own data and, for a node that has
  the property \<^verbatim>\<open>children\<close>, the ordered list of its children. A node without that
  property (\<^verbatim>\<open>'children' in node\<close> is false) has \<open>None\<close>.
\<close>

datatype 'a scene = Scene (self: 'a) (children: "'a scene list option")

text \<open>What \<^verbatim>\<open>queue.push(...node.children)\<close> appends, guarded by \<^verbatim>\<open>'children' in node\<close>.\<close>

fun pushed :: "'a scene \<Rightarrow> 'a scene list" where
  "pushed (Scene a None) = []"
| "pushed (Scene a (Some cs)) = cs"

fun weight :: "'a scene list \<Rightarrow> nat" where
  "weight [] = 0"
| "weight (t # ts) = size t + weight ts"

lemma weight_append: "weight (xs @ ys) = weight xs + weight ys"
  by (induction xs) simp_all

lemma weight_le_size_list: "weight cs \<le> size_list size cs"
  by (induction cs) simp_all

lemma weight_pushed: "weight (pushed t) < size t"
proof (cases t)
  case (Scene a co)
  show ?thesis
  proof (cases co)
    case None
    with Scene show ?thesis by simp
  next
    case (Some cs)
    have "weight cs \<le> size_list size cs" by (rule weight_le_size_list)
    with Scene Some show ?thesis by simp
  qed
qed

text \<open>
  The \<^verbatim>\<open>while (queue.length > 0)\<close> loop of \<^verbatim>\<open>getAllNodesInSelection\<close>: \<^verbatim>\<open>shift\<close> the
  head, \<^verbatim>\<open>push\<close> it onto \<^verbatim>\<open>result\<close>, append its children to the queue.
\<close>

function flatten_loop :: "'a scene list \<Rightarrow> 'a scene list \<Rightarrow> 'a scene list" where
  "flatten_loop [] result = result"
| "flatten_loop (node # queue) result = flatten_loop (queue @ pushed node) (result @ [node])"
  by pat_completeness auto
termination
  by (relation "measure (\<lambda>(queue, result). weight queue)")
     (simp_all add: weight_append weight_pushed)

definition getAllNodesInSelection :: "'a scene list \<Rightarrow> 'a scene list" where
  "getAllNodesInSelection selection = flatten_loop selection []"

text \<open>
  The specification's words: the nodes at depth \<open>d\<close> of a forest, parents in order and
  under each parent its children in sibling order; and the number of non-empty depths.
\<close>

fun level :: "nat \<Rightarrow> 'a scene list \<Rightarrow> 'a scene list" where
  "level 0 roots = roots"
| "level (Suc d) roots = level d (concat (map pushed roots))"

lemma weight_concat_pushed: "ts \<noteq> [] \<Longrightarrow> weight (concat (map pushed ts)) < weight ts"
proof (induction ts)
  case Nil
  then show ?case by simp
next
  case (Cons t ts)
  have "weight (pushed t) < size t" by (rule weight_pushed)
  moreover have "weight (concat (map pushed ts)) \<le> weight ts"
    using Cons.IH by (cases "ts = []") auto
  ultimately show ?case by (simp add: weight_append)
qed

function depths :: "'a scene list \<Rightarrow> nat" where
  "depths roots = (if roots = [] then 0 else Suc (depths (concat (map pushed roots))))"
  by pat_completeness auto
termination
  by (relation "measure weight") (simp_all add: weight_concat_pushed)

definition breadth_first :: "'a scene list \<Rightarrow> 'a scene list" where
  "breadth_first roots = concat (map (\<lambda>d. level d roots) [0..<depths roots])"

text \<open>A node together with everything reachable from it through \<^verbatim>\<open>children\<close>.\<close>

fun subtree :: "'a scene \<Rightarrow> 'a scene list" where
  "subtree (Scene a co) =
     Scene a co # (case co of None \<Rightarrow> [] | Some cs \<Rightarrow> concat (map subtree cs))"

text \<open>The running example of the specification: a root with children A and B, A with A1 and A2.\<close>

definition example_root :: "string scene" where
  "example_root =
     Scene ''root'' (Some [Scene ''A'' (Some [Scene ''A1'' None, Scene ''A2'' None]),
                           Scene ''B'' None])"

subsection \<open>The queue loop computes the level order\<close>

lemma level_step: "level (Suc d) roots = concat (map pushed (level d roots))"
  by (induction d arbitrary: roots) simp_all

lemma flatten_loop_acc: "flatten_loop q (acc @ r) = acc @ flatten_loop q r"
  by (induction q r arbitrary: acc rule: flatten_loop.induct) (simp_all flip: append_assoc)

lemma flatten_loop_Cons: "flatten_loop (x # q) [] = x # flatten_loop (q @ pushed x) []"
  using flatten_loop_acc [of "q @ pushed x" "[x]" "[]"] by simp

text \<open>
  Once the loop has consumed a whole prefix \<open>xs\<close> of the queue, the queue holds what was
  behind \<open>xs\<close>, followed by the children of \<open>xs\<close> in order.
\<close>

lemma flatten_loop_wave:
  "flatten_loop (xs @ cs) [] = xs @ flatten_loop (cs @ concat (map pushed xs)) []"
proof (induction xs arbitrary: cs)
  case Nil
  show ?case by simp
next
  case (Cons x xs)
  have "flatten_loop ((x # xs) @ cs) [] = x # flatten_loop (xs @ (cs @ pushed x)) []"
    using flatten_loop_Cons [of x "xs @ cs"] by simp
  also have "\<dots> = x # xs @ flatten_loop ((cs @ pushed x) @ concat (map pushed xs)) []"
    by (simp only: Cons.IH)
  finally show ?case by simp
qed

lemma flatten_loop_levels:
  "flatten_loop roots [] = concat (map (\<lambda>d. level d roots) [0..<depths roots])"
proof (induction roots rule: depths.induct)
  case (1 roots)
  show ?case
  proof (cases "roots = []")
    case True
    then show ?thesis by simp
  next
    case False
    let ?next = "concat (map pushed roots)"
    have "flatten_loop roots [] = roots @ flatten_loop ?next []"
      using flatten_loop_wave [of roots "[]"] by simp
    also have "\<dots> = roots @ concat (map (\<lambda>d. level d ?next) [0..<depths ?next])"
      using "1.IH" [OF False] by simp
    also have "\<dots> = concat (map (\<lambda>d. level d roots) [0..<Suc (depths ?next)])"
      by (simp add: upt_conv_Cons map_Suc_upt [symmetric] comp_def del: upt_Suc)
    also have "Suc (depths ?next) = depths roots"
      using False by simp
    finally show ?thesis .
  qed
qed

lemma subtree_pushed: "subtree t = t # concat (map subtree (pushed t))"
  by (cases t rule: pushed.cases) simp_all

lemma flatten_loop_mset:
  "mset (flatten_loop q acc) = mset acc + mset (concat (map subtree q))"
proof (induction q acc rule: flatten_loop.induct)
  case (1 result)
  show ?case by simp
next
  case (2 node queue result)
  have "mset (concat (map subtree (node # queue)))
      = {#node#} + mset (concat (map subtree (queue @ pushed node)))"
    using subtree_pushed [of node] by simp
  with 2 show ?case by simp
qed

text \<open>
  Claim C8. For every finite forest of root nodes, \<open>getAllNodesInSelection\<close> returns the
  nodes reachable through \<open>children\<close>, each as often as it occurs in the forest, in
  breadth-first order: the nodes of depth 0, then those of depth 1, and so on, each depth
  listing the children of the previous depth's nodes parent by parent and, under one
  parent, in sibling order. On the example the order is root, A, B, A1, A2 and not the
  depth-first root, A, A1, A2, B.
\<close>

theorem getAllNodesInSelection_breadth_first:
  "getAllNodesInSelection selection = breadth_first selection
   \<and> mset (getAllNodesInSelection selection) = mset (concat (map subtree selection))
   \<and> map self (getAllNodesInSelection [example_root]) = [''root'', ''A'', ''B'', ''A1'', ''A2'']
   \<and> map self (getAllNodesInSelection [example_root]) \<noteq> [''root'', ''A'', ''A1'', ''A2'', ''B'']"
proof (intro conjI)
  show "getAllNodesInSelection selection = breadth_first selection"
    by (simp only: getAllNodesInSelection_def breadth_first_def flatten_loop_levels)
  show "mset (getAllNodesInSelection selection) = mset (concat (map subtree selection))"
    by (simp add: getAllNodesInSelection_def flatten_loop_mset)
  show "map self (getAllNodesInSelection [example_root]) = [''root'', ''A'', ''B'', ''A1'', ''A2'']"
    by (simp add: getAllNodesInSelection_def example_root_def)
  then show "map self (getAllNodesInSelection [example_root]) \<noteq> [''root'', ''A'', ''A1'', ''A2'', ''B'']"
    by simp
qed

section \<open>RetryPolicy: \<open>withRetry\<close>\<close>

text \<open>
  A thrown value, as far as the code inspects it: \<^verbatim>\<open>error.status\<close> (absent on most
  errors) and the rest of the value, which the code only passes on.
\<close>

datatype error = Error (status: "int option") (message: string)

text \<open>\<^verbatim>\<open>error.status === 429\<close>\<close>

definition rate_limited :: "error \<Rightarrow> bool" where
  "rate_limited e = (status e = Some 429)"

text \<open>
  What one call of \<^verbatim>\<open>withRetry\<close> does: how it settles (\<open>Inl\<close> is the rejection), how
  often it invoked the operation, and the arguments of its \<^verbatim>\<open>wait\<close> calls in order.
\<close>

record 'a retry_run =
  outcome :: "error + 'a"
  attempts :: nat
  sleeps :: "int list"

text \<open>
  The operation \<^verbatim>\<open>fn\<close> may answer differently each time it is invoked: \<open>fn k\<close> is the
  settlement of its invocation number \<open>k\<close> (counted from 0), and \<open>withRetry fn k\<close> starts
  with invocation \<open>k\<close>. The recursion is the source's self-call with \<^verbatim>\<open>retries - 1\<close>
  and \<^verbatim>\<open>delayMs * 2\<close>.
\<close>

fun withRetry :: "(nat \<Rightarrow> error + 'a) \<Rightarrow> nat \<Rightarrow> nat \<Rightarrow> int \<Rightarrow> 'a retry_run" where
  "withRetry fn k retries delayMs =
     (case fn k of
        Inr v \<Rightarrow> \<lparr>outcome = Inr v, attempts = 1, sleeps = []\<rparr>
      | Inl e \<Rightarrow>
          if 0 < retries \<and> rate_limited e
          then (let r = withRetry fn (Suc k) (retries - 1) (delayMs * 2)
                in r\<lparr>attempts := Suc (attempts r), sleeps := delayMs # sleeps r\<rparr>)
          else \<lparr>outcome = Inl e, attempts = 1, sleeps = []\<rparr>)"

declare withRetry.simps [simp del]

text \<open>The defaults of the signature: \<^verbatim>\<open>retries = 3, delayMs = 1000\<close>.\<close>

definition retried :: "(nat \<Rightarrow> error + 'a) \<Rightarrow> error + 'a" where
  "retried fn = outcome (withRetry fn 0 3 1000)"

text \<open>Two operations for the examples: one always answers 429, one always answers 500.\<close>

definition always_429 :: "nat \<Rightarrow> error + unit" where
  "always_429 k = Inl (Error (Some 429) ''Too Many Requests'')"

definition always_500 :: "nat \<Rightarrow> error + unit" where
  "always_500 k = Inl (Error (Some 500) ''Internal Server Error'')"

subsection \<open>The retry bound\<close>

lemma withRetry_success: "fn k = Inr v \<Longrightarrow>
   withRetry fn k n d = \<lparr>outcome = Inr v, attempts = 1, sleeps = []\<rparr>"
  by (subst withRetry.simps) simp

lemma withRetry_give_up: "fn k = Inl e \<Longrightarrow> \<not> (0 < n \<and> rate_limited e) \<Longrightarrow>
   withRetry fn k n d = \<lparr>outcome = Inl e, attempts = 1, sleeps = []\<rparr>"
  by (subst withRetry.simps) auto

lemma withRetry_again: "fn k = Inl e \<Longrightarrow> rate_limited e \<Longrightarrow>
   withRetry fn k (Suc n) d =
     (withRetry fn (Suc k) n (d * 2))
       \<lparr>attempts := Suc (attempts (withRetry fn (Suc k) n (d * 2))),
        sleeps := d # sleeps (withRetry fn (Suc k) n (d * 2))\<rparr>"
  by (subst withRetry.simps) (simp add: Let_def)

lemma doubling_Suc:
  "map (\<lambda>i. d * 2 ^ i) [0..<Suc n] = (d::int) # map (\<lambda>i. (d * 2) * 2 ^ i) [0..<n]"
  by (simp add: upt_conv_Cons map_Suc_upt [symmetric] comp_def mult.assoc del: upt_Suc)

lemma withRetry_all_rate_limited:
  assumes "\<forall>j. \<exists>e. fn j = Inl e \<and> rate_limited e"
  shows "attempts (withRetry fn k n d) = Suc n
       \<and> sleeps (withRetry fn k n d) = map (\<lambda>i. d * 2 ^ i) [0..<n]
       \<and> outcome (withRetry fn k n d) = fn (k + n)"
proof (induction n arbitrary: k d)
  case 0
  from assms obtain e where "fn k = Inl e" by blast
  then show ?case by (simp add: withRetry_give_up)
next
  case (Suc n)
  from assms obtain e where e: "fn k = Inl e" "rate_limited e" by blast
  show ?case
    using Suc.IH [of "Suc k" "d * 2"]
    by (simp add: withRetry_again [of fn k e n d, OF e] doubling_Suc del: upt_Suc)
qed

text \<open>
  Claim C2 as stated fails. With the second argument 3, an operation that always answers
  429 is invoked four times, not three, with three sleeps in between: the argument
  counts the retries after the first attempt.
\<close>

theorem withRetry_attempts_counterexample:
  "attempts (withRetry always_429 0 3 1000) = 4
   \<and> attempts (withRetry always_429 0 3 1000) \<noteq> 3
   \<and> sleeps (withRetry always_429 0 3 1000) = [1000, 2000, 4000]"
proof -
  have "\<forall>j. \<exists>e. always_429 j = Inl e \<and> rate_limited e"
    by (simp add: always_429_def rate_limited_def)
  from withRetry_all_rate_limited [OF this, of 0 3 1000] show ?thesis
    by (simp add: numeral_3_eq_3 upt_conv_Cons)
qed

text \<open>
  Claim C2, amended. An operation that always fails with the rate-limited signal is
  invoked exactly \<open>retries + 1\<close> times, with the \<open>retries\<close> sleeps \<open>d, 2d, 4d, \<dots>\<close> (the \<open>i\<close>-th is \<open>d * 2 ^ i\<close>, from \<open>i = 0\<close>)
  between consecutive attempts, and the call then rejects with the failure of the last
  attempt, unchanged. An operation whose failure is not the rate-limited signal is
  invoked exactly once, without any sleep, and that failure is passed on unchanged.
\<close>

theorem withRetry_retry_bound:
  "((\<forall>j. \<exists>e. fn j = Inl e \<and> rate_limited e) \<longrightarrow>
      attempts (withRetry fn k retries d) = retries + 1
      \<and> sleeps (withRetry fn k retries d) = map (\<lambda>i. d * 2 ^ i) [0..<retries]
      \<and> outcome (withRetry fn k retries d) = fn (k + retries))
   \<and> (gn k = Inl e' \<and> \<not> rate_limited e' \<longrightarrow>
      withRetry gn k retries d = \<lparr>outcome = Inl e', attempts = 1, sleeps = []\<rparr>)"
proof (intro conjI impI)
  assume a: "\<forall>j. \<exists>e. fn j = Inl e \<and> rate_limited e"
  show "attempts (withRetry fn k retries d) = retries + 1"
    using withRetry_all_rate_limited [OF a, of k retries d] by simp
  show "sleeps (withRetry fn k retries d) = map (\<lambda>i. d * 2 ^ i) [0..<retries]"
    using withRetry_all_rate_limited [OF a, of k retries d] by simp
  show "outcome (withRetry fn k retries d) = fn (k + retries)"
    using withRetry_all_rate_limited [OF a, of k retries d] by simp
next
  assume "gn k = Inl e' \<and> \<not> rate_limited e'"
  then show "withRetry gn k retries d = \<lparr>outcome = Inl e', attempts = 1, sleeps = []\<rparr>"
    by (simp add: withRetry_give_up)
qed

text \<open>
  The bound at the defaults: four attempts and the sleeps 1000, 2000, 4000 for the
  operation that always answers 429, one attempt for the one that answers 500.
\<close>

theorem withRetry_retry_bound_witness:
  "(\<forall>j. \<exists>e. always_429 j = Inl e \<and> rate_limited e)
   \<and> attempts (withRetry always_429 0 3 1000) = 4
   \<and> sleeps (withRetry always_429 0 3 1000) = [1000, 2000, 4000]
   \<and> outcome (withRetry always_429 0 3 1000) = Inl (Error (Some 429) ''Too Many Requests'')
   \<and> always_500 0 = Inl (Error (Some 500) ''Internal Server Error'')
   \<and> \<not> rate_limited (Error (Some 500) ''Internal Server Error'')
   \<and> withRetry always_500 0 3 1000 =
       \<lparr>outcome = Inl (Error (Some 500) ''Internal Server Error''), attempts = 1, sleeps = []\<rparr>"
proof -
  have h1: "\<forall>j. \<exists>e. always_429 j = Inl e \<and> rate_limited e"
    by (simp add: always_429_def rate_limited_def)
  have h2: "always_500 0 = Inl (Error (Some 500) ''Internal Server Error'')
            \<and> \<not> rate_limited (Error (Some 500) ''Internal Server Error'')"
    by (simp add: always_500_def rate_limited_def)
  note t = withRetry_retry_bound [of always_429 0 3 1000 always_500
      "Error (Some 500) ''Internal Server Error''"]
  from t h1 have a: "attempts (withRetry always_429 0 3 1000) = 3 + 1
      \<and> sleeps (withRetry always_429 0 3 1000) = map (\<lambda>i. 1000 * 2 ^ i) [0..<3]
      \<and> outcome (withRetry always_429 0 3 1000) = always_429 (0 + 3)"
    by blast
  from t h2 have b: "withRetry always_500 0 3 1000 =
       \<lparr>outcome = Inl (Error (Some 500) ''Internal Server Error''), attempts = 1, sleeps = []\<rparr>"
    by blast
  from a have a': "attempts (withRetry always_429 0 3 1000) = 4
      \<and> sleeps (withRetry always_429 0 3 1000) = [1000, 2000, 4000]
      \<and> outcome (withRetry always_429 0 3 1000) = Inl (Error (Some 429) ''Too Many Requests'')"
    by (simp add: numeral_3_eq_3 upt_conv_Cons always_429_def)
  from h1 h2 a' b show ?thesis by blast
qed

section \<open>RequestQueue: the bounded-concurrency scheduler\<close>

text \<open>
  How the promise that a task returned settles. \<^verbatim>\<open>finally\<close> runs its callback on either.
\<close>

datatype settlement = Fulfilled | Rejected error

text \<open>
  A queued callback \<^verbatim>\<open>fn\<close>, of type \<^verbatim>\<open>() => Promise<void>\<close>. Calling it runs its body
  synchronously up to its first suspension. In that part the body may call \<^verbatim>\<open>enqueue\<close> on
  the queue that is admitting it (\<open>spawns\<close> lists the tasks it passes there, in order), and
  then it either returns its promise (\<open>throws = None\<close>; an \<^verbatim>\<open>async\<close> function always does)
  or raises an error before any promise exists (\<open>throws = Some e\<close>; a function that is not
  \<^verbatim>\<open>async\<close> can). An error raised after the first suspension is the rejection of the
  promise. The tasks that \<^verbatim>\<open>processNodesInChunks\<close> submits are \<^verbatim>\<open>async\<close> and enqueue
  nothing. The label tells tasks apart.
\<close>

datatype task = Task (label: nat) (spawns: "task list") (throws: "error option")

text \<open>
  The fields of the class, and beside them what the JavaScript runtime holds for it: the
  tasks whose promise is pending with the \<^verbatim>\<open>finally\<close> callback attached (\<open>running\<close>), the
  tasks whose promise has settled and how (\<open>finished\<close>), every task that was ever passed
  to \<^verbatim>\<open>enqueue\<close> (\<open>submitted\<close>), the tasks that were counted in \<^verbatim>\<open>activeCount\<close> and raised
  before a \<^verbatim>\<open>finally\<close> callback could be attached (\<open>leaked\<close>), and the errors that have
  left the scheduler (\<open>escaped\<close>): raised out of \<^verbatim>\<open>enqueue\<close> to its caller, or the rejection
  of a promise returned by \<^verbatim>\<open>finally\<close>, which the queue does not keep and nobody handles.
  \<^verbatim>\<open>activeCount\<close> is an integer that the code increments and decrements;
  \<^verbatim>\<open>maxConcurrency\<close> is a number of tasks.
\<close>

record request_queue =
  queue :: "task list"
  activeCount :: int
  maxConcurrency :: nat
  running :: "task list"
  finished :: "(task \<times> settlement) list"
  submitted :: "task list"
  leaked :: "task list"
  escaped :: "error list"

text \<open>\<^verbatim>\<open>new RequestQueue(maxConcurrency)\<close>; the program's only queue has the limit 5.\<close>

definition RequestQueue :: "nat \<Rightarrow> request_queue" where
  "RequestQueue c = \<lparr>queue = [], activeCount = 0, maxConcurrency = c,
                      running = [], finished = [], submitted = [], leaked = [], escaped = []\<rparr>"

definition MAX_CONCURRENT_REQUESTS :: nat where
  "MAX_CONCURRENT_REQUESTS = 5"

definition requestQueue :: request_queue where
  "requestQueue = RequestQueue MAX_CONCURRENT_REQUESTS"

text \<open>
  \<^verbatim>\<open>enqueue\<close> calls \<^verbatim>\<open>next\<close>, \<^verbatim>\<open>next\<close> calls the task, and the task may call \<^verbatim>\<open>enqueue\<close>
  again before it returns. The calls still to be made are kept on an explicit stack, as
  the JavaScript call stack keeps them: a call of \<^verbatim>\<open>enqueue(fn)\<close>, a call of
  \<^verbatim>\<open>this.next()\<close>, and the point in \<^verbatim>\<open>next\<close> where the synchronous part of \<^verbatim>\<open>fn()\<close> ends:
  there \<^verbatim>\<open>fn()\<close> has returned its promise and \<^verbatim>\<open>.finally(...)\<close> is attached to it, or
  \<^verbatim>\<open>fn()\<close> has raised.
\<close>

datatype frame = Enqueue task | Next | Called task

text \<open>The tasks whose call \<^verbatim>\<open>fn()\<close> is in progress on the stack.\<close>

fun called :: "frame list \<Rightarrow> task list" where
  "called [] = []"
| "called (Called fn # k) = fn # called k"
| "called (Enqueue fn # k) = called k"
| "called (Next # k) = called k"

fun task_cost :: "task \<Rightarrow> nat" where
  "task_cost (Task l cs t) = Suc (sum_list (map (\<lambda>c. task_cost c + 2) cs))"

fun frame_cost :: "frame \<Rightarrow> nat" where
  "frame_cost (Enqueue fn) = task_cost fn + 2"
| "frame_cost Next = 1"
| "frame_cost (Called fn) = 1"

definition pending_cost :: "frame list \<Rightarrow> request_queue \<Rightarrow> nat" where
  "pending_cost k s = sum_list (map frame_cost k) + sum_list (map task_cost (queue s))"

lemma cost_spawns: "sum_list (map frame_cost (map Enqueue (spawns fn))) < task_cost fn"
  by (cases fn) (simp add: comp_def)

lemma cost_hd_tl:
  "q \<noteq> [] \<Longrightarrow> sum_list (map task_cost q) = task_cost (hd q) + sum_list (map task_cost (tl q))"
  by (cases q) simp_all

text \<open>
  \<open>exec k s\<close> runs the pending calls \<open>k\<close> from the state \<open>s\<close>, to completion or until
  an error is raised; it yields the state and the error raised, if any.
  \<^item> \<^verbatim>\<open>enqueue(fn)\<close>: \<^verbatim>\<open>this.queue.push(fn); this.next()\<close>.
  \<^item> \<^verbatim>\<open>next()\<close>: return if \<^verbatim>\<open>activeCount >= maxConcurrency || queue.length === 0\<close>;
    otherwise \<^verbatim>\<open>shift\<close> the head, \<^verbatim>\<open>activeCount++\<close>, call it (its synchronous part makes
    its \<open>spawns\<close> calls of \<^verbatim>\<open>enqueue\<close>), and attach the \<^verbatim>\<open>finally\<close> callback to the
    promise it returns.
  \<^item> When \<^verbatim>\<open>fn()\<close> raises instead, nothing in \<^verbatim>\<open>next\<close> or \<^verbatim>\<open>enqueue\<close> catches the error: it
    leaves every call on the stack, the task bodies among them (a task body is taken not
    to catch what its own \<^verbatim>\<open>enqueue\<close> call raises). None of the tasks on the stack gets a
    \<^verbatim>\<open>finally\<close> callback, so the count each of them added to \<^verbatim>\<open>activeCount\<close> stays.
  \<open>hd\<close> and \<open>tl\<close> are only taken of a non-empty queue.
\<close>

function exec :: "frame list \<Rightarrow> request_queue \<Rightarrow> request_queue \<times> error option" where
  "exec [] s = (s, None)"
| "exec (Enqueue fn # k) s =
     exec (Next # k) (s\<lparr>queue := queue s @ [fn], submitted := submitted s @ [fn]\<rparr>)"
| "exec (Next # k) s =
     (if int (maxConcurrency s) \<le> activeCount s \<or> queue s = [] then exec k s
      else exec (map Enqueue (spawns (hd (queue s))) @ Called (hd (queue s)) # k)
                (s\<lparr>queue := tl (queue s), activeCount := activeCount s + 1\<rparr>))"
| "exec (Called fn # k) s =
     (case throws fn of
        None \<Rightarrow> exec k (s\<lparr>running := running s @ [fn]\<rparr>)
      | Some e \<Rightarrow> (s\<lparr>leaked := leaked s @ fn # called k\<rparr>, Some e))"
  by pat_completeness auto
termination
proof (relation "measure (\<lambda>(k, s). pending_cost k s)", goal_cases)
  case 1
  show ?case by simp
next
  case (2 fn k s)
  show ?case by (simp add: pending_cost_def)
next
  case (3 k s)
  show ?case by (simp add: pending_cost_def)
next
  case (4 k s)
  then have "queue s \<noteq> []" by simp
  from cost_hd_tl [OF this] cost_spawns [of "hd (queue s)"]
  show ?case by (simp add: pending_cost_def)
next
  case (5 fn k s)
  show ?case by (simp add: pending_cost_def)
qed

text \<open>\<^verbatim>\<open>enqueue(fn)\<close>, called from outside: the state afterwards and the error raised, if any.\<close>

definition enqueue :: "task \<Rightarrow> request_queue \<Rightarrow> request_queue \<times> error option" where
  "enqueue fn s = exec [Enqueue fn] s"

text \<open>
  \<^verbatim>\<open>promise.finally(callback)\<close> returns a promise of its own: it rejects with what the
  callback raises, if it raises, and otherwise settles as \<^verbatim>\<open>promise\<close> did.
\<close>

definition finally_settlement :: "settlement \<Rightarrow> error option \<Rightarrow> settlement" where
  "finally_settlement r raised = (case raised of Some e \<Rightarrow> Rejected e | None \<Rightarrow> r)"

fun rejection :: "settlement \<Rightarrow> error list" where
  "rejection Fulfilled = []"
| "rejection (Rejected e) = [e]"

text \<open>
  The \<^verbatim>\<open>finally\<close> callback of the running task number \<open>i\<close>, whose promise settled as
  \<open>r\<close>: \<^verbatim>\<open>this.activeCount--; this.next()\<close>. The callback does not look at \<open>r\<close>. The
  promise that \<^verbatim>\<open>fn().finally(...)\<close> returns is dropped: \<^verbatim>\<open>next\<close> neither returns nor
  stores it and attaches no handler, so when it rejects, the error has left the scheduler
  as an unhandled rejection.
\<close>

definition on_settled :: "nat \<Rightarrow> settlement \<Rightarrow> request_queue \<Rightarrow> request_queue" where
  "on_settled i r s =
     (if i < length (running s)
      then (case exec [Next] (s\<lparr>activeCount := activeCount s - 1,
                                running := take i (running s) @ drop (Suc i) (running s),
                                finished := finished s @ [(running s ! i, r)]\<rparr>) of
              (s', raised) \<Rightarrow>
                s'\<lparr>escaped := escaped s' @ rejection (finally_settlement r raised)\<rparr>)
      else s)"

text \<open>
  What can happen to the queue, one event at a time (the runtime runs one callback to
  completion before the next): somebody calls \<^verbatim>\<open>enqueue\<close> (an error it raises goes to that
  caller), a running task's promise settles, or the 100 ms timer of \<^verbatim>\<open>waitUntilEmpty\<close>
  fires.
\<close>

datatype event = Submit task | Settle nat settlement | Tick

fun handle :: "event \<Rightarrow> request_queue \<Rightarrow> request_queue" where
  "handle (Submit fn) s =
     (case enqueue fn s of
        (s', raised) \<Rightarrow> s'\<lparr>escaped := escaped s' @ (case raised of None \<Rightarrow> [] | Some e \<Rightarrow> [e])\<rparr>)"
| "handle (Settle i r) s = on_settled i r s"
| "handle Tick s = s"

fun run :: "event list \<Rightarrow> request_queue \<Rightarrow> request_queue" where
  "run [] s = s"
| "run (e # es) s = run es (handle e s)"

text \<open>
  \<^verbatim>\<open>waitUntilEmpty\<close>: test \<^verbatim>\<open>activeCount > 0 || queue.length > 0\<close>; if it holds, sleep
  until the timer fires (the events before the next \<open>Tick\<close> happen meanwhile) and test
  again; otherwise return. The result is the state in which the call returned and the
  events that were still to come, or \<open>None\<close> when the events run out while the caller is
  still suspended.
\<close>

fun waitUntilEmpty :: "request_queue \<Rightarrow> event list \<Rightarrow> (request_queue \<times> event list) option"
  and sleeping :: "request_queue \<Rightarrow> event list \<Rightarrow> (request_queue \<times> event list) option" where
  "waitUntilEmpty s es = (if 0 < activeCount s \<or> queue s \<noteq> [] then sleeping s es else Some (s, es))"
| "sleeping s [] = None"
| "sleeping s (Tick # es) = waitUntilEmpty s es"
| "sleeping s (Submit fn # es) = sleeping (handle (Submit fn) s) es"
| "sleeping s (Settle i r # es) = sleeping (handle (Settle i r) s) es"

text \<open>
  The wrapper that \<^verbatim>\<open>processNodesInChunks\<close> submits for each node:
  \<^verbatim>\<open>async () => { try { await processSingleNode(...) } catch (error) { console.error(...) } }\<close>.
  Given how \<^verbatim>\<open>processSingleNode\<close> settled, it yields how the task settles and what was
  written to the console. Being \<^verbatim>\<open>async\<close> and enqueuing nothing, the task for node
  number \<open>l\<close> is \<open>node_task_fn l\<close>.
\<close>

definition node_task :: "error + unit \<Rightarrow> settlement \<times> error list" where
  "node_task r = (case r of Inl e \<Rightarrow> (Fulfilled, [e]) | Inr u \<Rightarrow> (Fulfilled, []))"

definition node_task_fn :: "nat \<Rightarrow> task" where
  "node_task_fn l = Task l [] None"

text \<open>A task none of whose calls raises synchronously, the tasks it enqueues included.\<close>

fun promising :: "task \<Rightarrow> bool" where
  "promising (Task l cs t) = (t = None \<and> list_all promising cs)"

subsection \<open>Invariants of the scheduler\<close>

text \<open>
  While calls are pending: the tasks of the \<open>Called\<close> frames have been counted in
  \<^verbatim>\<open>activeCount\<close> but are not yet among the running ones. A leaked task stays counted.
\<close>

definition balanced :: "frame list \<Rightarrow> request_queue \<Rightarrow> bool" where
  "balanced k s =
     (activeCount s = int (length (running s)) + int (length (leaked s)) + int (length (called k))
      \<and> activeCount s \<le> int (maxConcurrency s)
      \<and> mset (submitted s) =
          mset (queue s) + mset (running s) + mset (map fst (finished s)) + mset (leaked s)
          + mset (called k))"

fun saturated :: "frame list \<Rightarrow> request_queue \<Rightarrow> bool" where
  "saturated (Next # k) s =
     (int (maxConcurrency s) \<le> activeCount s + 1 \<or> length (queue s) \<le> 1)"
| "saturated k s = (queue s = [] \<or> int (maxConcurrency s) \<le> activeCount s)"

declare exec.simps [simp del]

text \<open>
  \<^verbatim>\<open>next()\<close> as the source reads, for a head task that enqueues nothing as it starts and
  returns its promise: return when the limit is reached or nothing is pending, otherwise
  shift, count and start the head task.
\<close>

lemma next_returns:
  "int (maxConcurrency s) \<le> activeCount s \<or> queue s = [] \<Longrightarrow> exec (Next # k) s = exec k s"
  by (simp add: exec.simps)

lemma next_admits:
  assumes "queue s \<noteq> []" and "spawns (hd (queue s)) = []" and "throws (hd (queue s)) = None"
    and "activeCount s < int (maxConcurrency s)"
  shows "exec (Next # k) s =
           exec k (s\<lparr>queue := tl (queue s), activeCount := activeCount s + 1,
                      running := running s @ [hd (queue s)]\<rparr>)"
  using assms by (simp add: exec.simps)

lemma next_raises:
  assumes "queue s \<noteq> []" and "spawns (hd (queue s)) = []" and "throws (hd (queue s)) = Some e"
    and "activeCount s < int (maxConcurrency s)"
  shows "exec (Next # k) s =
           (s\<lparr>queue := tl (queue s), activeCount := activeCount s + 1,
              leaked := leaked s @ hd (queue s) # called k\<rparr>, Some e)"
  using assms by (simp add: exec.simps)

lemma called_spawns: "called (map Enqueue cs @ k) = called k"
  by (induction cs) simp_all

lemma saturated_weaken:
  "queue s = [] \<or> int (maxConcurrency s) \<le> activeCount s \<Longrightarrow> saturated k s"
  by (cases "(k, s)" rule: saturated.cases) auto

lemma saturated_spawns:
  "queue s = [] \<or> int (maxConcurrency s) \<le> activeCount s \<Longrightarrow>
   saturated (map Enqueue cs @ Called fn # k) s"
  by (cases cs) simp_all

lemma exec_maxConcurrency: "maxConcurrency (fst (exec k s)) = maxConcurrency s"
proof (induction k s rule: exec.induct)
  case (1 s)
  show ?case by (simp add: exec.simps(1))
next
  case (2 fn k s)
  then show ?case by (simp add: exec.simps(2))
next
  case (3 k s)
  then show ?case by (simp add: exec.simps(3))
next
  case (4 fn k s)
  then show ?case by (simp add: exec.simps(4) split: option.split)
qed

lemma exec_balanced: "balanced k s \<Longrightarrow> balanced [] (fst (exec k s))"
proof (induction k s rule: exec.induct)
  case (1 s)
  then show ?case by (simp add: exec.simps)
next
  case (2 fn k s)
  from "2.prems" show ?case
    by (subst exec.simps) (rule "2.IH", simp add: balanced_def)
next
  case (3 k s)
  show ?case
  proof (cases "int (maxConcurrency s) \<le> activeCount s \<or> queue s = []")
    case True
    with "3.prems" have "balanced k s" by (simp add: balanced_def)
    with True "3.IH"(1) show ?thesis by (simp add: exec.simps)
  next
    case False
    then obtain fn rest where q: "queue s = fn # rest" by (cases "queue s") auto
    let ?s = "s\<lparr>queue := tl (queue s), activeCount := activeCount s + 1\<rparr>"
    let ?k = "map Enqueue (spawns (hd (queue s))) @ Called (hd (queue s)) # k"
    from "3.prems" False q have "balanced ?k ?s"
      by (simp add: balanced_def called_spawns)
    with False "3.IH"(2) show ?thesis by (simp add: exec.simps)
  qed
next
  case (4 fn k s)
  show ?case
  proof (cases "throws fn")
    case None
    from "4.prems" have "balanced k (s\<lparr>running := running s @ [fn]\<rparr>)"
      by (simp add: balanced_def)
    with None "4.IH" show ?thesis by (simp add: exec.simps)
  next
    case (Some e)
    with "4.prems" show ?thesis by (simp add: exec.simps balanced_def)
  qed
qed

lemma exec_saturated: "saturated k s \<Longrightarrow> saturated [] (fst (exec k s))"
proof (induction k s rule: exec.induct)
  case (1 s)
  then show ?case by (simp add: exec.simps)
next
  case (2 fn k s)
  from "2.prems" show ?case
    by (subst exec.simps) (rule "2.IH", auto)
next
  case (3 k s)
  show ?case
  proof (cases "int (maxConcurrency s) \<le> activeCount s \<or> queue s = []")
    case True
    then have "saturated k s" by (intro saturated_weaken) auto
    with True "3.IH"(1) show ?thesis by (simp add: exec.simps)
  next
    case False
    then obtain fn rest where q: "queue s = fn # rest" by (cases "queue s") auto
    let ?s = "s\<lparr>queue := tl (queue s), activeCount := activeCount s + 1\<rparr>"
    from "3.prems" q have "queue ?s = [] \<or> int (maxConcurrency ?s) \<le> activeCount ?s"
      by auto
    then have "saturated (map Enqueue (spawns (hd (queue s))) @ Called (hd (queue s)) # k) ?s"
      by (rule saturated_spawns)
    with False "3.IH"(2) show ?thesis by (simp add: exec.simps)
  qed
next
  case (4 fn k s)
  show ?case
  proof (cases "throws fn")
    case None
    from "4.prems" have "saturated k (s\<lparr>running := running s @ [fn]\<rparr>)"
      by (intro saturated_weaken) simp
    with None "4.IH" show ?thesis by (simp add: exec.simps)
  next
    case (Some e)
    with "4.prems" show ?thesis by (simp add: exec.simps)
  qed
qed

text \<open>The state between two events.\<close>

definition consistent :: "request_queue \<Rightarrow> bool" where
  "consistent s =
     (activeCount s = int (length (running s)) + int (length (leaked s))
      \<and> activeCount s \<le> int (maxConcurrency s)
      \<and> (queue s = [] \<or> int (maxConcurrency s) \<le> activeCount s)
      \<and> mset (submitted s) =
          mset (queue s) + mset (running s) + mset (map fst (finished s)) + mset (leaked s))"

lemma consistent_iff: "consistent s \<longleftrightarrow> balanced [] s \<and> saturated [] s"
  by (auto simp: consistent_def balanced_def)

lemma consistent_new: "consistent (RequestQueue c)"
  by (simp add: consistent_def RequestQueue_def)

lemma consistent_escaped: "consistent (s\<lparr>escaped := x\<rparr>) = consistent s"
  by (simp add: consistent_def)

lemma consistent_exec:
  "balanced k s \<Longrightarrow> saturated k s \<Longrightarrow> consistent (fst (exec k s))"
  by (simp only: consistent_iff exec_balanced exec_saturated)

lemma consistent_enqueue: "consistent s \<Longrightarrow> consistent (fst (enqueue fn s))"
  unfolding enqueue_def
  by (rule consistent_exec) (auto simp: consistent_def balanced_def)

lemma mset_without_nth:
  "i < length xs \<Longrightarrow> mset (take i xs @ drop (Suc i) xs) + {#xs ! i#} = mset xs"
proof -
  assume "i < length xs"
  then have "xs = take i xs @ xs ! i # drop (Suc i) xs"
    by (rule id_take_nth_drop)
  then have "mset xs = mset (take i xs @ xs ! i # drop (Suc i) xs)"
    by simp
  then show ?thesis by simp
qed

lemma consistent_on_settled: "consistent s \<Longrightarrow> consistent (on_settled i r s)"
proof (cases "i < length (running s)")
  case False
  assume "consistent s"
  with False show ?thesis by (simp add: on_settled_def)
next
  case True
  assume c: "consistent s"
  let ?s = "s\<lparr>activeCount := activeCount s - 1,
              running := take i (running s) @ drop (Suc i) (running s),
              finished := finished s @ [(running s ! i, r)]\<rparr>"
  from c True mset_without_nth [OF True] have "balanced [Next] ?s"
    by (auto simp: consistent_def balanced_def)
  moreover from c have "saturated [Next] ?s"
    by (auto simp: consistent_def)
  ultimately have "consistent (fst (exec [Next] ?s))"
    by (rule consistent_exec)
  with True show ?thesis
    by (simp add: on_settled_def consistent_escaped case_prod_beta)
qed

lemma consistent_handle: "consistent s \<Longrightarrow> consistent (handle e s)"
proof (cases e)
  case (Submit fn)
  assume "consistent s"
  then have "consistent (fst (enqueue fn s))" by (rule consistent_enqueue)
  with Submit show ?thesis by (simp add: consistent_escaped case_prod_beta)
next
  case (Settle i r)
  assume "consistent s"
  with Settle show ?thesis by (simp add: consistent_on_settled)
next
  case Tick
  assume "consistent s"
  with Tick show ?thesis by simp
qed

lemma consistent_run: "consistent s \<Longrightarrow> consistent (run es s)"
  by (induction es arbitrary: s) (simp_all add: consistent_handle)

text \<open>
  At the limit, the \<^verbatim>\<open>enqueue\<close> calls of a starting task only append to the pending list.
\<close>

lemma exec_spawns_saturated:
  "int (maxConcurrency s) \<le> activeCount s \<Longrightarrow>
   exec (map Enqueue cs @ k) s = exec k (s\<lparr>queue := queue s @ cs, submitted := submitted s @ cs\<rparr>)"
proof (induction cs arbitrary: s)
  case Nil
  show ?case by simp
next
  case (Cons c cs)
  let ?s = "s\<lparr>queue := queue s @ [c], submitted := submitted s @ [c]\<rparr>"
  have "exec (map Enqueue (c # cs) @ k) s = exec (Next # map Enqueue cs @ k) ?s"
    by (simp add: exec.simps)
  also have "\<dots> = exec (map Enqueue cs @ k) ?s"
    using Cons.prems by (subst exec.simps) simp
  also have "\<dots> = exec k (?s\<lparr>queue := queue ?s @ cs, submitted := submitted ?s @ cs\<rparr>)"
    using Cons.prems by (intro Cons.IH) simp
  finally show ?case by simp
qed

text \<open>The tasks that enter \<open>running\<close> and \<open>leaked\<close> when the task \<open>fn\<close> is started at the limit.\<close>

definition now_running :: "task \<Rightarrow> task list" where
  "now_running fn = (case throws fn of None \<Rightarrow> [fn] | Some e \<Rightarrow> [])"

definition now_leaked :: "task \<Rightarrow> task list" where
  "now_leaked fn = (case throws fn of None \<Rightarrow> [] | Some e \<Rightarrow> [fn])"

lemma on_settled_refill:
  assumes c: "consistent s" and i: "i < length (running s)" and q: "queue s = fn # rest"
  shows "on_settled i r s =
           s\<lparr>queue := rest @ spawns fn,
             running := take i (running s) @ drop (Suc i) (running s) @ now_running fn,
             finished := finished s @ [(running s ! i, r)],
             submitted := submitted s @ spawns fn,
             leaked := leaked s @ now_leaked fn,
             escaped := escaped s @ rejection (finally_settlement r (throws fn))\<rparr>"
proof -
  from c q have full: "activeCount s = int (maxConcurrency s)"
    by (auto simp: consistent_def)
  let ?s = "s\<lparr>activeCount := activeCount s - 1,
              running := take i (running s) @ drop (Suc i) (running s),
              finished := finished s @ [(running s ! i, r)]\<rparr>"
  let ?t = "?s\<lparr>queue := tl (queue ?s), activeCount := activeCount ?s + 1\<rparr>"
  let ?u = "?t\<lparr>queue := queue ?t @ spawns fn, submitted := submitted ?t @ spawns fn\<rparr>"
  have "exec [Next] ?s = exec (map Enqueue (spawns fn) @ [Called fn]) ?t"
    using full q by (subst exec.simps) simp
  also have "\<dots> = exec [Called fn] ?u"
    using full by (intro exec_spawns_saturated) simp
  finally have e: "exec [Next] ?s = exec [Called fn] ?u" .
  show ?thesis
  proof (cases "throws fn")
    case None
    then have "exec [Called fn] ?u = (?u\<lparr>running := running ?u @ [fn]\<rparr>, None)"
      by (simp add: exec.simps)
    with e i q None show ?thesis
      by (simp add: on_settled_def now_running_def now_leaked_def)
  next
    case (Some e')
    then have "exec [Called fn] ?u = (?u\<lparr>leaked := leaked ?u @ [fn]\<rparr>, Some e')"
      by (simp add: exec.simps)
    with e i q Some show ?thesis
      by (simp add: on_settled_def now_running_def now_leaked_def)
  qed
qed

lemma on_settled_release:
  assumes i: "i < length (running s)" and q: "queue s = []"
  shows "on_settled i r s =
           s\<lparr>activeCount := activeCount s - 1,
             running := take i (running s) @ drop (Suc i) (running s),
             finished := finished s @ [(running s ! i, r)],
             escaped := escaped s @ rejection r\<rparr>"
  using i q by (simp add: on_settled_def exec.simps finally_settlement_def)

lemma run_maxConcurrency: "maxConcurrency (run es s) = maxConcurrency s"
proof (induction es arbitrary: s)
  case Nil
  show ?case by simp
next
  case (Cons e es)
  have "maxConcurrency (handle e s) = maxConcurrency s"
  proof (cases e)
    case (Submit fn)
    with exec_maxConcurrency [of "[Enqueue fn]" s] show ?thesis
      by (simp add: enqueue_def case_prod_beta)
  next
    case (Settle i r)
    let ?s = "s\<lparr>activeCount := activeCount s - 1,
              running := take i (running s) @ drop (Suc i) (running s),
              finished := finished s @ [(running s ! i, r)]\<rparr>"
    from Settle exec_maxConcurrency [of "[Next]" ?s] show ?thesis
      by (simp add: on_settled_def case_prod_beta)
  next
    case Tick
    then show ?thesis by simp
  qed
  with Cons show ?case by simp
qed

lemma run_append: "run (es @ fs) s = run fs (run es s)"
  by (induction es arbitrary: s) simp_all

subsection \<open>When the wait returns\<close>

definition drained_after :: "request_queue \<Rightarrow> event list \<Rightarrow> request_queue \<Rightarrow> event list \<Rightarrow> bool" where
  "drained_after s es s' rest =
     ((\<exists>seen. es = seen @ rest \<and> s' = run seen s) \<and> activeCount s' \<le> 0 \<and> queue s' = [])"

lemma drained_after_step:
  "drained_after (handle e s) es s' rest \<Longrightarrow> drained_after s (e # es) s' rest"
proof -
  assume "drained_after (handle e s) es s' rest"
  then obtain seen where "es = seen @ rest" "s' = run seen (handle e s)"
    and d: "activeCount s' \<le> 0" "queue s' = []"
    unfolding drained_after_def by blast
  then have "e # es = (e # seen) @ rest \<and> s' = run (e # seen) s" by simp
  with d show ?thesis unfolding drained_after_def by blast
qed

lemma waitUntilEmpty_returns:
  shows "waitUntilEmpty s es = Some (s', rest) \<Longrightarrow> drained_after s es s' rest"
    and "sleeping s es = Some (s', rest) \<Longrightarrow> drained_after s es s' rest"
proof (induction s es and s es rule: waitUntilEmpty_sleeping.induct)
  case (1 s es)
  show ?case
  proof (cases "0 < activeCount s \<or> queue s \<noteq> []")
    case True
    with 1 show ?thesis by simp
  next
    case False
    with "1.prems" have "s' = s" "rest = es" by simp_all
    moreover have "es = [] @ es \<and> s = run [] s" by simp
    ultimately show ?thesis using False unfolding drained_after_def by auto
  qed
next
  case (2 s)
  then show ?case by simp
next
  case (3 s es)
  from "3.prems" have "waitUntilEmpty s es = Some (s', rest)" by simp
  then have "drained_after (handle Tick s) es s' rest" using "3.IH" by simp
  then show ?case by (rule drained_after_step)
next
  case (4 s fn es)
  from "4.prems" have "sleeping (handle (Submit fn) s) es = Some (s', rest)" by simp
  then have "drained_after (handle (Submit fn) s) es s' rest" by (rule "4.IH")
  then show ?case by (rule drained_after_step)
next
  case (5 s i r es)
  from "5.prems" have "sleeping (handle (Settle i r) s) es = Some (s', rest)" by simp
  then have "drained_after (handle (Settle i r) s) es s' rest" by (rule "5.IH")
  then show ?case by (rule drained_after_step)
qed

lemma consistent_drained:
  assumes "consistent s" and "activeCount s \<le> 0" and "queue s = []"
  shows "activeCount s = 0 \<and> running s = [] \<and> leaked s = []
       \<and> mset (map fst (finished s)) = mset (submitted s)"
proof -
  from assms(1) have a: "activeCount s = int (length (running s)) + int (length (leaked s))"
    and m: "mset (submitted s) =
          mset (queue s) + mset (running s) + mset (map fst (finished s)) + mset (leaked s)"
    by (simp_all add: consistent_def)
  from a assms(2) have "length (running s) = 0" "length (leaked s) = 0" by linarith+
  then have e: "running s = []" "leaked s = []" by simp_all
  with a m assms(3) show ?thesis by simp
qed

text \<open>
  Once the events up to some tick have emptied the queue, the wait has returned by that
  tick at the latest.
\<close>

lemma wait_returns_once_drained:
  assumes "activeCount (run pre s) \<le> 0" and "queue (run pre s) = []"
  shows "waitUntilEmpty s (pre @ Tick # rest) \<noteq> None"
    and "sleeping s (pre @ Tick # rest) \<noteq> None"
  using assms
proof (induction pre arbitrary: s)
  case Nil
  {
    case 1
    then show ?case by simp
  next
    case 2
    then show ?case by simp
  }
next
  case (Cons e pre)
  {
    case 2
    then have d: "activeCount (run pre (handle e s)) \<le> 0" "queue (run pre (handle e s)) = []"
      by simp_all
    show ?case
    proof (cases e)
      case (Submit fn)
      with Cons.IH(2) [OF d] show ?thesis by simp
    next
      case (Settle i r)
      with Cons.IH(2) [OF d] show ?thesis by simp
    next
      case Tick
      with Cons.IH(1) [OF d] show ?thesis by simp
    qed
  next
    case 1
    then have d: "activeCount (run pre (handle e s)) \<le> 0" "queue (run pre (handle e s)) = []"
      by simp_all
    have sl: "sleeping s ((e # pre) @ Tick # rest) \<noteq> None"
    proof (cases e)
      case (Submit fn)
      with Cons.IH(2) [OF d] show ?thesis by simp
    next
      case (Settle i r)
      with Cons.IH(2) [OF d] show ?thesis by simp
    next
      case Tick
      with Cons.IH(1) [OF d] show ?thesis by simp
    qed
    then show ?case by simp
  }
qed

subsection \<open>What \<^verbatim>\<open>enqueue\<close> was given\<close>

lemma exec_submitted_mono: "set (submitted s) \<subseteq> set (submitted (fst (exec k s)))"
proof (induction k s rule: exec.induct)
  case (1 s)
  show ?case by (simp add: exec.simps(1))
next
  case (2 fn k s)
  then show ?case by (simp add: exec.simps(2))
next
  case (3 k s)
  then show ?case by (simp add: exec.simps(3))
next
  case (4 fn k s)
  then show ?case by (simp add: exec.simps(4) split: option.split)
qed

lemma handle_submitted_mono: "set (submitted s) \<subseteq> set (submitted (handle e s))"
proof (cases e)
  case (Submit fn)
  with exec_submitted_mono [of s "[Enqueue fn]"] show ?thesis
    by (simp add: enqueue_def case_prod_beta)
next
  case (Settle i r)
  let ?s = "s\<lparr>activeCount := activeCount s - 1,
              running := take i (running s) @ drop (Suc i) (running s),
              finished := finished s @ [(running s ! i, r)]\<rparr>"
  have "set (submitted ?s) \<subseteq> set (submitted (fst (exec [Next] ?s)))"
    by (rule exec_submitted_mono)
  with Settle show ?thesis by (simp add: on_settled_def case_prod_beta)
next
  case Tick
  then show ?thesis by simp
qed

lemma run_submitted_mono: "set (submitted s) \<subseteq> set (submitted (run es s))"
proof (induction es arbitrary: s)
  case Nil
  show ?case by simp
next
  case (Cons e es)
  from handle_submitted_mono [of s e] Cons [of "handle e s"] show ?case by auto
qed

lemma enqueue_submitted: "fn \<in> set (submitted (handle (Submit fn) s))"
proof -
  let ?s = "s\<lparr>queue := queue s @ [fn], submitted := submitted s @ [fn]\<rparr>"
  have "set (submitted ?s) \<subseteq> set (submitted (fst (exec (Next # []) ?s)))"
    by (rule exec_submitted_mono)
  then show ?thesis by (simp add: enqueue_def exec.simps(2) case_prod_beta)
qed

lemma run_submitted: "Submit fn \<in> set es \<Longrightarrow> fn \<in> set (submitted (run es s))"
proof (induction es arbitrary: s)
  case Nil
  then show ?case by simp
next
  case (Cons e es)
  show ?case
  proof (cases "e = Submit fn")
    case True
    from enqueue_submitted [of fn s] run_submitted_mono [of "handle (Submit fn) s" es] True
    show ?thesis by auto
  next
    case False
    with Cons show ?thesis by simp
  qed
qed

subsection \<open>Tasks that return their promise\<close>

fun frame_promising :: "frame \<Rightarrow> bool" where
  "frame_promising (Enqueue fn) = promising fn"
| "frame_promising Next = True"
| "frame_promising (Called fn) = promising fn"

lemma promising_parts: "promising fn \<Longrightarrow> throws fn = None \<and> list_all promising (spawns fn)"
  by (cases fn) simp

lemma exec_promising:
  "list_all promising (queue s) \<Longrightarrow> list_all frame_promising k \<Longrightarrow>
   snd (exec k s) = None \<and> leaked (fst (exec k s)) = leaked s
   \<and> list_all promising (queue (fst (exec k s)))"
proof (induction k s rule: exec.induct)
  case (1 s)
  then show ?case by (simp add: exec.simps(1))
next
  case (2 fn k s)
  then show ?case by (simp add: exec.simps(2))
next
  case (3 k s)
  show ?case
  proof (cases "int (maxConcurrency s) \<le> activeCount s \<or> queue s = []")
    case True
    with 3 show ?thesis by (simp add: exec.simps(3))
  next
    case False
    then obtain fn rest where q: "queue s = fn # rest" by (cases "queue s") auto
    with "3.prems" have p: "promising fn" "list_all promising rest" by simp_all
    let ?s = "s\<lparr>queue := tl (queue s), activeCount := activeCount s + 1\<rparr>"
    let ?k = "map Enqueue (spawns (hd (queue s))) @ Called (hd (queue s)) # k"
    from promising_parts [OF p(1)] have "list_all frame_promising (map Enqueue (spawns fn))"
      by (simp add: list_all_iff)
    with p q "3.prems"(2) have "list_all promising (queue ?s)" "list_all frame_promising ?k"
      by simp_all
    from "3.IH"(2) [OF False this] False show ?thesis
      by (simp add: exec.simps(3))
  qed
next
  case (4 fn k s)
  from "4.prems"(2) have "throws fn = None" "list_all frame_promising k"
    using promising_parts [of fn] by simp_all
  with "4.IH" "4.prems"(1) show ?case by (simp add: exec.simps(4))
qed

lemma handle_promising:
  assumes "list_all promising (queue s)" and "\<forall>fn. e = Submit fn \<longrightarrow> promising fn"
  shows "leaked (handle e s) = leaked s \<and> list_all promising (queue (handle e s))"
proof (cases e)
  case (Submit fn)
  with assms(2) have "list_all frame_promising [Enqueue fn]" by simp
  from exec_promising [OF assms(1) this] Submit show ?thesis
    by (simp add: enqueue_def case_prod_beta)
next
  case (Settle i r)
  let ?s = "s\<lparr>activeCount := activeCount s - 1,
              running := take i (running s) @ drop (Suc i) (running s),
              finished := finished s @ [(running s ! i, r)]\<rparr>"
  from assms(1) have "list_all promising (queue ?s)" "list_all frame_promising [Next]"
    by simp_all
  from exec_promising [OF this] Settle assms(1) show ?thesis
    by (simp add: on_settled_def case_prod_beta)
next
  case Tick
  with assms(1) show ?thesis by simp
qed

lemma run_promising:
  assumes "list_all promising (queue s)" and "\<forall>fn. Submit fn \<in> set es \<longrightarrow> promising fn"
  shows "leaked (run es s) = leaked s"
  using assms
proof (induction es arbitrary: s)
  case Nil
  show ?case by simp
next
  case (Cons e es)
  from Cons.prems(2) have "\<forall>fn. e = Submit fn \<longrightarrow> promising fn" by simp
  from handle_promising [OF Cons.prems(1) this]
  have h: "leaked (handle e s) = leaked s" "list_all promising (queue (handle e s))"
    by simp_all
  from Cons.prems(2) have "\<forall>fn. Submit fn \<in> set es \<longrightarrow> promising fn" by simp
  from Cons.IH [OF h(2) this] h(1) show ?case by simp
qed

subsection \<open>A leaked slot\<close>

lemma exec_leaked_mono: "set (leaked s) \<subseteq> set (leaked (fst (exec k s)))"
proof (induction k s rule: exec.induct)
  case (1 s)
  show ?case by (simp add: exec.simps(1))
next
  case (2 fn k s)
  then show ?case by (simp add: exec.simps(2))
next
  case (3 k s)
  then show ?case by (simp add: exec.simps(3))
next
  case (4 fn k s)
  then show ?case by (auto simp: exec.simps(4) split: option.split)
qed

lemma handle_leaked_mono: "set (leaked s) \<subseteq> set (leaked (handle e s))"
proof (cases e)
  case (Submit fn)
  with exec_leaked_mono [of s "[Enqueue fn]"] show ?thesis
    by (simp add: enqueue_def case_prod_beta)
next
  case (Settle i r)
  let ?s = "s\<lparr>activeCount := activeCount s - 1,
              running := take i (running s) @ drop (Suc i) (running s),
              finished := finished s @ [(running s ! i, r)]\<rparr>"
  have "set (leaked ?s) \<subseteq> set (leaked (fst (exec [Next] ?s)))"
    by (rule exec_leaked_mono)
  with Settle show ?thesis by (simp add: on_settled_def case_prod_beta)
next
  case Tick
  then show ?thesis by simp
qed

text \<open>With a leaked slot \<^verbatim>\<open>activeCount\<close> stays above zero, and the wait never returns.\<close>

lemma leak_blocks_drain:
  assumes "consistent s" and "leaked s \<noteq> []"
  shows "waitUntilEmpty s es = None" and "sleeping s es = None"
  using assms
proof (induction es arbitrary: s)
  case Nil
  {
    case 2
    show ?case by simp
  next
    case 1
    then have "0 < activeCount s" by (cases "leaked s") (auto simp: consistent_def)
    then show ?case by simp
  }
next
  case (Cons e es)
  {
    case 2
    from handle_leaked_mono [of s e] 2(2) have l: "leaked (handle e s) \<noteq> []" by auto
    from 2(1) have c: "consistent (handle e s)" by (rule consistent_handle)
    show ?case
    proof (cases e)
      case (Submit fn)
      with Cons.IH(2) [OF c l] show ?thesis by simp
    next
      case (Settle i r)
      with Cons.IH(2) [OF c l] show ?thesis by simp
    next
      case Tick
      with Cons.IH(1) [of s] 2 show ?thesis by simp
    qed
  next
    case 1
    from handle_leaked_mono [of s e] 1(2) have l: "leaked (handle e s) \<noteq> []" by auto
    from 1(1) have c: "consistent (handle e s)" by (rule consistent_handle)
    have sl: "sleeping s (e # es) = None"
    proof (cases e)
      case (Submit fn)
      with Cons.IH(2) [OF c l] show ?thesis by simp
    next
      case (Settle i r)
      with Cons.IH(2) [OF c l] show ?thesis by simp
    next
      case Tick
      with Cons.IH(1) [of s] 1 show ?thesis by simp
    qed
    from 1 have "0 < activeCount s" by (cases "leaked s") (auto simp: consistent_def)
    with sl show ?case by simp
  }
qed

subsection \<open>What the scheduler can tell apart\<close>

text \<open>
  Replacing every rejection by a fulfilment, in the events and in the record of settled
  tasks, and leaving aside which errors have escaped: what remains is all that the
  scheduler itself acts on.
\<close>

definition fulfilled :: "event \<Rightarrow> event" where
  "fulfilled e = (case e of Settle i r \<Rightarrow> Settle i Fulfilled | _ \<Rightarrow> e)"

definition forget :: "request_queue \<Rightarrow> request_queue" where
  "forget s = s\<lparr>finished := map (\<lambda>(fn, r). (fn, Fulfilled)) (finished s), escaped := []\<rparr>"

definition forget_result ::
  "(request_queue \<times> event list) option \<Rightarrow> (request_queue \<times> event list) option" where
  "forget_result = map_option (\<lambda>(s, es). (forget s, map fulfilled es))"

lemma finished_last:
  "queue_update g (finished_update h s) = finished_update h (queue_update g s)"
  "activeCount_update a (finished_update h s) = finished_update h (activeCount_update a s)"
  "running_update b (finished_update h s) = finished_update h (running_update b s)"
  "submitted_update c (finished_update h s) = finished_update h (submitted_update c s)"
  "leaked_update d (finished_update h s) = finished_update h (leaked_update d s)"
  by (cases s, simp)+

lemma escaped_last:
  "queue_update g (escaped_update h s) = escaped_update h (queue_update g s)"
  "activeCount_update a (escaped_update h s) = escaped_update h (activeCount_update a s)"
  "running_update b (escaped_update h s) = escaped_update h (running_update b s)"
  "submitted_update c (escaped_update h s) = escaped_update h (submitted_update c s)"
  "leaked_update d (escaped_update h s) = escaped_update h (leaked_update d s)"
  "finished_update f (escaped_update h s) = escaped_update h (finished_update f s)"
  by (cases s, simp)+

lemma exec_ghost:
  "exec k (s\<lparr>finished := f, escaped := x\<rparr>) = apfst (\<lambda>t. t\<lparr>finished := f, escaped := x\<rparr>) (exec k s)"
proof (induction k s rule: exec.induct)
  case (1 s)
  show ?case by (simp add: exec.simps(1))
next
  case (2 fn k s)
  then show ?case by (simp add: exec.simps(2) finished_last escaped_last)
next
  case (3 k s)
  then show ?case by (simp add: exec.simps(3) finished_last escaped_last)
next
  case (4 fn k s)
  then show ?case by (simp add: exec.simps(4) finished_last escaped_last split: option.split)
qed

lemma exec_ghost_same: "finished (fst (exec k s)) = finished s \<and> escaped (fst (exec k s)) = escaped s"
proof (induction k s rule: exec.induct)
  case (1 s)
  show ?case by (simp add: exec.simps(1))
next
  case (2 fn k s)
  then show ?case by (simp add: exec.simps(2))
next
  case (3 k s)
  then show ?case by (simp add: exec.simps(3))
next
  case (4 fn k s)
  then show ?case by (simp add: exec.simps(4) split: option.split)
qed

lemma forget_exec: "forget (fst (exec k s)) = fst (exec k (forget s))"
  by (simp add: forget_def exec_ghost exec_ghost_same)

lemma exec_raises_forget: "snd (exec k (forget s)) = snd (exec k s)"
  by (simp add: forget_def exec_ghost)

lemma forget_escaped: "forget (s\<lparr>escaped := x\<rparr>) = forget s"
  by (simp add: forget_def)

lemma forget_idem: "forget (forget s) = forget s"
  by (simp add: forget_def comp_def case_prod_beta)

lemma fulfilled_idem: "fulfilled (fulfilled e) = fulfilled e"
  by (cases e) (simp_all add: fulfilled_def)

lemma forget_handle: "forget (handle e s) = forget (handle (fulfilled e) (forget s))"
proof (cases e)
  case (Submit fn)
  then show ?thesis
    by (simp add: fulfilled_def enqueue_def case_prod_beta forget_escaped forget_exec forget_idem)
next
  case (Settle i r)
  show ?thesis
  proof (cases "i < length (running s)")
    case True
    let ?s = "s\<lparr>activeCount := activeCount s - 1,
              running := take i (running s) @ drop (Suc i) (running s),
              finished := finished s @ [(running s ! i, r)]\<rparr>"
    let ?t = "(forget s)\<lparr>activeCount := activeCount (forget s) - 1,
              running := take i (running (forget s)) @ drop (Suc i) (running (forget s)),
              finished := finished (forget s) @ [(running (forget s) ! i, Fulfilled)]\<rparr>"
    have eq: "forget ?t = forget ?s"
      by (simp add: forget_def comp_def case_prod_beta)
    have "forget (handle e s) = forget (fst (exec [Next] ?s))"
      using True Settle by (simp add: on_settled_def case_prod_beta forget_escaped)
    also have "\<dots> = fst (exec [Next] (forget ?s))"
      by (rule forget_exec)
    also have "\<dots> = fst (exec [Next] (forget ?t))"
      by (simp only: eq)
    also have "\<dots> = forget (fst (exec [Next] ?t))"
      by (rule forget_exec [symmetric])
    also have "\<dots> = forget (handle (fulfilled e) (forget s))"
      using True Settle
      by (simp add: fulfilled_def on_settled_def case_prod_beta forget_escaped)
         (simp add: forget_def)
    finally show ?thesis .
  next
    case False
    with Settle show ?thesis
      by (simp add: fulfilled_def on_settled_def forget_idem) (simp add: forget_def on_settled_def forget_idem)
  qed
next
  case Tick
  then show ?thesis by (simp add: fulfilled_def forget_idem)
qed

lemma forget_handle_cong:
  assumes "forget s = forget t"
  shows "forget (handle e s) = forget (handle (fulfilled e) t)"
proof -
  have "forget (handle e s) = forget (handle (fulfilled e) (forget s))"
    by (rule forget_handle)
  also have "\<dots> = forget (handle (fulfilled (fulfilled e)) (forget t))"
    by (simp only: assms fulfilled_idem)
  also have "\<dots> = forget (handle (fulfilled e) t)"
    by (rule forget_handle [symmetric])
  finally show ?thesis .
qed

lemma forget_tests:
  assumes "forget s = forget t"
  shows "activeCount s = activeCount t" and "queue s = queue t"
proof -
  have "activeCount (forget s) = activeCount s" "activeCount (forget t) = activeCount t"
    "queue (forget s) = queue s" "queue (forget t) = queue t"
    by (simp_all add: forget_def)
  with assms show "activeCount s = activeCount t" "queue s = queue t" by simp_all
qed

lemma wait_forget_cong:
  "forget s = forget t \<Longrightarrow>
   forget_result (sleeping s es) = forget_result (sleeping t (map fulfilled es))
   \<and> forget_result (waitUntilEmpty s es) = forget_result (waitUntilEmpty t (map fulfilled es))"
proof (induction es arbitrary: s t)
  case Nil
  from forget_tests [OF Nil] Nil show ?case
    by (simp add: forget_result_def)
next
  case (Cons e es)
  have sl: "forget_result (sleeping s (e # es)) = forget_result (sleeping t (map fulfilled (e # es)))"
  proof (cases e)
    case (Submit fn)
    from forget_handle_cong [OF Cons.prems, of e] Submit
    have "forget (handle (Submit fn) s) = forget (handle (Submit fn) t)"
      by (simp add: fulfilled_def del: handle.simps)
    from Cons.IH [OF this]
    have "forget_result (sleeping (handle (Submit fn) s) es)
        = forget_result (sleeping (handle (Submit fn) t) (map fulfilled es))"
      by blast
    with Submit show ?thesis by (simp add: fulfilled_def del: handle.simps)
  next
    case (Settle i r)
    from forget_handle_cong [OF Cons.prems, of e] Settle
    have "forget (handle (Settle i r) s) = forget (handle (Settle i Fulfilled) t)"
      by (simp add: fulfilled_def del: handle.simps)
    from Cons.IH [OF this]
    have "forget_result (sleeping (handle (Settle i r) s) es)
        = forget_result (sleeping (handle (Settle i Fulfilled) t) (map fulfilled es))"
      by blast
    with Settle show ?thesis by (simp add: fulfilled_def del: handle.simps)
  next
    case Tick
    from Cons.IH [OF Cons.prems]
    have "forget_result (waitUntilEmpty s es) = forget_result (waitUntilEmpty t (map fulfilled es))"
      by blast
    with Tick show ?thesis by (simp add: fulfilled_def del: waitUntilEmpty.simps)
  qed
  have "forget_result (waitUntilEmpty s (e # es)) = forget_result (waitUntilEmpty t (map fulfilled (e # es)))"
  proof (cases "0 < activeCount s \<or> queue s \<noteq> []")
    case True
    with forget_tests [OF Cons.prems] have "0 < activeCount t \<or> queue t \<noteq> []" by simp
    with True sl show ?thesis by (simp del: sleeping.simps)
  next
    case False
    with forget_tests [OF Cons.prems] have "\<not> (0 < activeCount t \<or> queue t \<noteq> [])" by simp
    with False Cons.prems show ?thesis
      by (simp add: forget_result_def fulfilled_idem comp_def)
  qed
  with sl show ?case by blast
qed

lemma waitUntilEmpty_forget:
  "forget_result (waitUntilEmpty s es) = forget_result (waitUntilEmpty (forget s) (map fulfilled es))"
  using wait_forget_cong [of s "forget s" es] by (simp add: forget_idem)

subsection \<open>Runs used in the examples\<close>

text \<open>
  Four independent tasks submitted to a queue of limit 2; then, while \<^verbatim>\<open>waitUntilEmpty\<close>
  polls, the tasks settle one by one (the third one rejects) and a running task submits a
  fifth task, which enqueues a sixth as it starts. In \<open>all_fail\<close> all four tasks reject
  instead. \<open>thrower\<close> is a task that is not \<^verbatim>\<open>async\<close> and raises as soon as it is called.
\<close>

definition four_tasks :: "event list" where
  "four_tasks = [Submit (Task 1 [] None), Submit (Task 2 [] None),
                 Submit (Task 3 [] None), Submit (Task 4 [] None)]"

definition drain_trace :: "event list" where
  "drain_trace = [Settle 0 Fulfilled, Tick, Submit (Task 5 [Task 6 [] None] None),
                  Settle 0 Fulfilled, Settle 0 (Rejected (Error None ''boom'')),
                  Settle 0 Fulfilled, Tick, Settle 0 Fulfilled, Settle 0 Fulfilled, Tick, Tick]"

definition drained :: request_queue where
  "drained =
     \<lparr>queue = [], activeCount = 0, maxConcurrency = 2, running = [],
      finished = [(Task 1 [] None, Fulfilled), (Task 2 [] None, Fulfilled),
                  (Task 3 [] None, Rejected (Error None ''boom'')), (Task 4 [] None, Fulfilled),
                  (Task 5 [Task 6 [] None] None, Fulfilled), (Task 6 [] None, Fulfilled)],
      submitted = [Task 1 [] None, Task 2 [] None, Task 3 [] None, Task 4 [] None,
                   Task 5 [Task 6 [] None] None, Task 6 [] None],
      leaked = [], escaped = [Error None ''boom'']\<rparr>"

definition all_fail :: "event list" where
  "all_fail = [Settle 0 (Rejected (Error None ''boom'')), Settle 0 (Rejected (Error None ''boom'')),
               Settle 0 (Rejected (Error None ''boom'')), Settle 0 (Rejected (Error None ''boom''))]"

definition thrower :: task where
  "thrower = Task 1 [] (Some (Error None ''boom''))"

lemma run_four_tasks:
  "run four_tasks (RequestQueue 2) =
     \<lparr>queue = [Task 3 [] None, Task 4 [] None], activeCount = 2, maxConcurrency = 2,
      running = [Task 1 [] None, Task 2 [] None], finished = [],
      submitted = [Task 1 [] None, Task 2 [] None, Task 3 [] None, Task 4 [] None],
      leaked = [], escaped = []\<rparr>"
  by (simp add: four_tasks_def RequestQueue_def enqueue_def exec.simps)

lemma wait_four_tasks:
  "waitUntilEmpty (run four_tasks (RequestQueue 2)) drain_trace = Some (drained, [Tick])"
  by (simp add: run_four_tasks drain_trace_def drained_def enqueue_def on_settled_def exec.simps
        finally_settlement_def)

lemma run_thrower:
  "run [Submit thrower, Submit (Task 2 [] None)] (RequestQueue 1) =
     \<lparr>queue = [Task 2 [] None], activeCount = 1, maxConcurrency = 1, running = [],
      finished = [], submitted = [thrower, Task 2 [] None], leaked = [thrower],
      escaped = [Error None ''boom'']\<rparr>"
  by (simp add: thrower_def RequestQueue_def enqueue_def exec.simps)

subsection \<open>Bounded occupancy\<close>

text \<open>
  Claim C1. In every state that a queue of limit \<open>c\<close> reaches, whatever is submitted
  and in whatever order tasks settle, \<^verbatim>\<open>activeCount\<close> never exceeds \<open>c\<close> and counts the
  running tasks together with the leaked ones; when every submitted task returns its
  promise (as the independent tasks of the claim do) nothing leaks and \<^verbatim>\<open>activeCount\<close> is
  the number of running tasks. While tasks are pending it equals
  \<open>min c (pending + running)\<close>, that is, all \<open>c\<close> slots are taken. When a running task
  settles while tasks are pending, the very callback that frees the slot starts the head
  pending task, so that the next event already sees the slot refilled (for a task with
  \<open>spawns\<close>, those are appended to the pending list as it starts; a head task that raises
  takes the slot without ever running).
\<close>

theorem RequestQueue_bounded_occupancy:
  assumes "s = run es (RequestQueue c)"
  shows "int (length (running s)) + int (length (leaked s)) = activeCount s
       \<and> activeCount s \<le> int c
       \<and> ((\<forall>fn. Submit fn \<in> set es \<longrightarrow> promising fn) \<longrightarrow> int (length (running s)) = activeCount s)
       \<and> (queue s \<noteq> [] \<longrightarrow> activeCount s = min (int c) (int (length (queue s)) + activeCount s))
       \<and> (\<forall>i r fn rest. i < length (running s) \<and> queue s = fn # rest \<longrightarrow>
            on_settled i r s =
              s\<lparr>queue := rest @ spawns fn,
                running := take i (running s) @ drop (Suc i) (running s) @ now_running fn,
                finished := finished s @ [(running s ! i, r)],
                submitted := submitted s @ spawns fn,
                leaked := leaked s @ now_leaked fn,
                escaped := escaped s @ rejection (finally_settlement r (throws fn))\<rparr>)"
proof -
  have c: "consistent s"
    unfolding assms by (intro consistent_run consistent_new)
  have m: "maxConcurrency s = c"
    unfolding assms by (simp add: run_maxConcurrency RequestQueue_def)
  from c m have 1: "int (length (running s)) + int (length (leaked s)) = activeCount s"
    and 2: "activeCount s \<le> int c"
    by (simp_all add: consistent_def)
  have 3: "int (length (running s)) = activeCount s"
    if p: "\<forall>fn. Submit fn \<in> set es \<longrightarrow> promising fn"
  proof -
    have "list_all promising (queue (RequestQueue c))" by (simp add: RequestQueue_def)
    from run_promising [OF this p] have "leaked s = []"
      unfolding assms by (simp add: RequestQueue_def)
    with 1 show ?thesis by simp
  qed
  from c m
  have 4: "queue s \<noteq> [] \<longrightarrow> activeCount s = min (int c) (int (length (queue s)) + activeCount s)"
    by (auto simp: consistent_def)
  have 5: "\<forall>i r fn rest. i < length (running s) \<and> queue s = fn # rest \<longrightarrow>
            on_settled i r s =
              s\<lparr>queue := rest @ spawns fn,
                running := take i (running s) @ drop (Suc i) (running s) @ now_running fn,
                finished := finished s @ [(running s ! i, r)],
                submitted := submitted s @ spawns fn,
                leaked := leaked s @ now_leaked fn,
                escaped := escaped s @ rejection (finally_settlement r (throws fn))\<rparr>"
    using on_settled_refill [OF c] by blast
  from 1 2 3 4 5 show ?thesis by blast
qed

text \<open>
  Four tasks on a queue of limit 2: two run and two wait, \<open>2 = min 2 (2 + 2)\<close>; when the
  first one settles, the third takes its slot at once.
\<close>

theorem RequestQueue_bounded_occupancy_witness:
  "run four_tasks (RequestQueue 2) =
     \<lparr>queue = [Task 3 [] None, Task 4 [] None], activeCount = 2, maxConcurrency = 2,
      running = [Task 1 [] None, Task 2 [] None], finished = [],
      submitted = [Task 1 [] None, Task 2 [] None, Task 3 [] None, Task 4 [] None],
      leaked = [], escaped = []\<rparr>
   \<and> int (length (running (run four_tasks (RequestQueue 2)))) = activeCount (run four_tasks (RequestQueue 2))
   \<and> activeCount (run four_tasks (RequestQueue 2)) =
       min 2 (int (length (queue (run four_tasks (RequestQueue 2))))
              + activeCount (run four_tasks (RequestQueue 2)))
   \<and> on_settled 0 Fulfilled (run four_tasks (RequestQueue 2)) =
     \<lparr>queue = [Task 4 [] None], activeCount = 2, maxConcurrency = 2,
      running = [Task 2 [] None, Task 3 [] None], finished = [(Task 1 [] None, Fulfilled)],
      submitted = [Task 1 [] None, Task 2 [] None, Task 3 [] None, Task 4 [] None],
      leaked = [], escaped = []\<rparr>"
proof -
  note t = RequestQueue_bounded_occupancy [OF refl, of four_tasks 2]
  let ?s = "run four_tasks (RequestQueue 2)"
  have p: "\<forall>fn. Submit fn \<in> set four_tasks \<longrightarrow> promising fn"
    by (auto simp: four_tasks_def)
  with t have run: "int (length (running ?s)) = activeCount ?s"
    by blast
  have pending: "queue ?s \<noteq> []"
    by (simp add: run_four_tasks)
  with t have occ: "activeCount ?s = min (int 2) (int (length (queue ?s)) + activeCount ?s)"
    by blast
  have "(0::nat) < length (running ?s) \<and> queue ?s = Task 3 [] None # [Task 4 [] None]"
    by (simp add: run_four_tasks)
  with t have "on_settled 0 Fulfilled ?s =
              ?s\<lparr>queue := [Task 4 [] None] @ spawns (Task 3 [] None),
                running := take 0 (running ?s) @ drop (Suc 0) (running ?s) @ now_running (Task 3 [] None),
                finished := finished ?s @ [(running ?s ! 0, Fulfilled)],
                submitted := submitted ?s @ spawns (Task 3 [] None),
                leaked := leaked ?s @ now_leaked (Task 3 [] None),
                escaped := escaped ?s @ rejection (finally_settlement Fulfilled (throws (Task 3 [] None)))\<rparr>"
    by blast
  then have "on_settled 0 Fulfilled ?s =
     \<lparr>queue = [Task 4 [] None], activeCount = 2, maxConcurrency = 2,
      running = [Task 2 [] None, Task 3 [] None], finished = [(Task 1 [] None, Fulfilled)],
      submitted = [Task 1 [] None, Task 2 [] None, Task 3 [] None, Task 4 [] None],
      leaked = [], escaped = []\<rparr>"
    by (simp add: run_four_tasks now_running_def now_leaked_def finally_settlement_def)
  with run occ run_four_tasks show ?thesis by simp
qed

subsection \<open>Drain completeness\<close>

text \<open>
  Claim C5. Let \<^verbatim>\<open>waitUntilEmpty\<close> be called in any state the queue can be in, and let
  anything happen while it waits, further submissions included (by running tasks, or by
  tasks in the moment they are admitted). If the call returns, then in the state where it
  returns the pending list is empty, \<^verbatim>\<open>activeCount\<close> is zero, no task is running, and
  every task that was submitted up to that moment, before or during the wait, has
  settled.
\<close>

theorem waitUntilEmpty_drain_complete:
  assumes "s = run es (RequestQueue c)" and "waitUntilEmpty s later = Some (s', rest)"
  shows "queue s' = [] \<and> activeCount s' = 0 \<and> running s' = []
       \<and> (\<exists>seen. later = seen @ rest \<and> s' = run (es @ seen) (RequestQueue c)
            \<and> (\<forall>fn. Submit fn \<in> set (es @ seen) \<longrightarrow> (\<exists>r. (fn, r) \<in> set (finished s'))))
       \<and> mset (map fst (finished s')) = mset (submitted s')"
proof -
  from waitUntilEmpty_returns(1) [OF assms(2)]
  obtain seen where seen: "later = seen @ rest" "s' = run seen s"
    and d: "activeCount s' \<le> 0" "queue s' = []"
    unfolding drained_after_def by blast
  from seen(2) have s': "s' = run (es @ seen) (RequestQueue c)"
    by (simp add: assms(1) run_append)
  then have "consistent s'"
    by (simp add: consistent_run consistent_new)
  from consistent_drained [OF this d]
  have z: "activeCount s' = 0" "running s' = []"
    and all: "mset (map fst (finished s')) = mset (submitted s')" by simp_all
  have "\<exists>r. (fn, r) \<in> set (finished s')" if "Submit fn \<in> set (es @ seen)" for fn
  proof -
    from that have "fn \<in> set (submitted s')"
      unfolding s' by (rule run_submitted)
    moreover from all have "set (map fst (finished s')) = set (submitted s')"
      by (rule mset_eq_setD)
    ultimately have "fn \<in> fst ` set (finished s')" by simp
    then show ?thesis by auto
  qed
  with seen(1) s' d(2) z all show ?thesis by blast
qed

text \<open>
  The example run: the wait does not return at the first tick (tasks are running), nor at
  the second; it returns at the third, with all six tasks settled.
\<close>

theorem waitUntilEmpty_drain_complete_witness:
  "waitUntilEmpty (run four_tasks (RequestQueue 2)) drain_trace = Some (drained, [Tick])
   \<and> queue drained = [] \<and> activeCount drained = 0 \<and> running drained = []
   \<and> mset (map fst (finished drained)) = mset (submitted drained)
   \<and> map (label \<circ> fst) (finished drained) = [1, 2, 3, 4, 5, 6]"
proof -
  note w = wait_four_tasks
  from waitUntilEmpty_drain_complete [OF refl w]
  have "queue drained = [] \<and> activeCount drained = 0 \<and> running drained = []
        \<and> mset (map fst (finished drained)) = mset (submitted drained)"
    by blast
  moreover have "map (label \<circ> fst) (finished drained) = [1, 2, 3, 4, 5, 6]"
    by (simp add: drained_def)
  ultimately show ?thesis using w by blast
qed

subsection \<open>A failing task\<close>

text \<open>
  Claim C9 as stated fails, in two ways. The scheduler has no \<^verbatim>\<open>catch\<close>: when a running
  task's promise rejects, the promise that \<^verbatim>\<open>finally\<close> returns rejects with the same error
  and nobody handles it, so the error does leave the scheduler. And a submitted task that
  raises before it returns a promise never gets a \<^verbatim>\<open>finally\<close> callback: on a queue of
  limit 1 its slot stays taken, the error comes out of \<^verbatim>\<open>enqueue\<close>, the task submitted
  after it is never admitted, and \<^verbatim>\<open>waitUntilEmpty\<close> does not return.
\<close>

theorem task_failure_counterexample:
  "escaped (on_settled 0 (Rejected (Error None ''boom'')) (run four_tasks (RequestQueue 2)))
     = [Error None ''boom'']
   \<and> run [Submit thrower, Submit (Task 2 [] None)] (RequestQueue 1) =
     \<lparr>queue = [Task 2 [] None], activeCount = 1, maxConcurrency = 1, running = [],
      finished = [], submitted = [thrower, Task 2 [] None], leaked = [thrower],
      escaped = [Error None ''boom'']\<rparr>
   \<and> waitUntilEmpty (run [Submit thrower, Submit (Task 2 [] None)] (RequestQueue 1))
        [Tick, Tick, Tick] = None"
proof -
  have "escaped (on_settled 0 (Rejected (Error None ''boom'')) (run four_tasks (RequestQueue 2)))
     = [Error None ''boom'']"
    by (simp add: run_four_tasks on_settled_def exec.simps finally_settlement_def)
  moreover have "waitUntilEmpty (run [Submit thrower, Submit (Task 2 [] None)] (RequestQueue 1))
        [Tick, Tick, Tick] = None"
    unfolding run_thrower by simp
  ultimately show ?thesis using run_thrower by simp
qed

text \<open>
  Claim C9, amended. When the promise of a running task rejects, the scheduler does what
  it does when the promise fulfils: the task is recorded as settled, its slot is freed
  (with nothing pending, \<^verbatim>\<open>activeCount\<close> drops by one; otherwise the head pending task
  takes the slot), and the resulting state differs from the one after a fulfilment only
  in the recorded outcome and in the errors that have escaped. \<^verbatim>\<open>waitUntilEmpty\<close> returns on
  a sequence of events exactly when it returns on the same sequence with every rejection
  replaced by a fulfilment; once the events, rejections among them, have emptied the
  queue, it has returned by the next tick. The scheduler does not catch the error: it
  escapes as the rejection of the promise that \<^verbatim>\<open>finally\<close> returned (unless the head
  pending task raises as it is started, whose error that promise then carries). The task
  that is submitted for a node catches whatever the node's processing raises, reports it,
  and fulfils; when such a task settles, no error escapes.
\<close>

theorem task_rejection_contained:
  assumes "s = run es (RequestQueue c)" and "i < length (running s)"
  shows "(running s ! i, Rejected e) \<in> set (finished (on_settled i (Rejected e) s))
       \<and> forget (on_settled i (Rejected e) s) = forget (on_settled i Fulfilled s)
       \<and> (queue s = [] \<longrightarrow>
            activeCount (on_settled i (Rejected e) s) = activeCount s - 1
            \<and> escaped (on_settled i (Rejected e) s) = escaped s @ [e])
       \<and> (\<forall>fn rest. queue s = fn # rest \<longrightarrow>
            activeCount (on_settled i (Rejected e) s) = activeCount s
            \<and> (throws fn = None \<longrightarrow>
                 fn \<in> set (running (on_settled i (Rejected e) s))
                 \<and> escaped (on_settled i (Rejected e) s) = escaped s @ [e]))
       \<and> forget_result (waitUntilEmpty s later)
           = forget_result (waitUntilEmpty (forget s) (map fulfilled later))
       \<and> (activeCount (run pre s) \<le> 0 \<and> queue (run pre s) = [] \<longrightarrow>
            waitUntilEmpty s (pre @ Tick # rest) \<noteq> None)
       \<and> fst (node_task result) = Fulfilled
       \<and> snd (node_task (Inl e)) = [e]
       \<and> promising (node_task_fn l)
       \<and> (queue s = [] \<or> throws (hd (queue s)) = None \<longrightarrow>
            escaped (on_settled i (fst (node_task result)) s) = escaped s)"
proof -
  have c: "consistent s"
    unfolding assms(1) by (intro consistent_run consistent_new)
  let ?s = "s\<lparr>activeCount := activeCount s - 1,
              running := take i (running s) @ drop (Suc i) (running s),
              finished := finished s @ [(running s ! i, Rejected e)]\<rparr>"
  have "finished (on_settled i (Rejected e) s) = finished ?s"
    using assms(2) exec_ghost_same [of "[Next]" ?s]
    by (simp add: on_settled_def case_prod_beta)
  then have 1: "(running s ! i, Rejected e) \<in> set (finished (on_settled i (Rejected e) s))"
    by simp
  have 2: "forget (on_settled i (Rejected e) s) = forget (on_settled i Fulfilled s)"
    using forget_handle_cong [of s s "Settle i (Rejected e)"]
    by (simp add: fulfilled_def)
  have 3: "queue s = [] \<longrightarrow>
            activeCount (on_settled i (Rejected e) s) = activeCount s - 1
            \<and> escaped (on_settled i (Rejected e) s) = escaped s @ [e]"
    using on_settled_release [OF assms(2)] by simp
  have 4: "\<forall>fn rest. queue s = fn # rest \<longrightarrow>
            activeCount (on_settled i (Rejected e) s) = activeCount s
            \<and> (throws fn = None \<longrightarrow>
                 fn \<in> set (running (on_settled i (Rejected e) s))
                 \<and> escaped (on_settled i (Rejected e) s) = escaped s @ [e])"
    using on_settled_refill [OF c assms(2)]
    by (simp add: now_running_def finally_settlement_def)
  have 5: "forget_result (waitUntilEmpty s later)
           = forget_result (waitUntilEmpty (forget s) (map fulfilled later))"
    by (rule waitUntilEmpty_forget)
  have 6: "fst (node_task result) = Fulfilled" "snd (node_task (Inl e)) = [e]"
    "promising (node_task_fn l)"
    by (simp_all add: node_task_def node_task_fn_def split: sum.split)
  have 7: "activeCount (run pre s) \<le> 0 \<and> queue (run pre s) = [] \<longrightarrow>
            waitUntilEmpty s (pre @ Tick # rest) \<noteq> None"
    using wait_returns_once_drained(1) [of pre s rest] by blast
  have 8: "escaped (on_settled i (fst (node_task result)) s) = escaped s"
    if h: "queue s = [] \<or> throws (hd (queue s)) = None"
  proof (cases "queue s")
    case Nil
    from on_settled_release [OF assms(2) Nil, of Fulfilled] 6(1) show ?thesis by simp
  next
    case (Cons fn rest)
    with h have "throws fn = None" by simp
    with on_settled_refill [OF c assms(2) Cons, of Fulfilled] 6(1) show ?thesis
      by (simp add: finally_settlement_def)
  qed
  from 1 2 3 4 5 6 7 8 show ?thesis by blast
qed

text \<open>
  The example run with the first task rejecting: it is recorded as settled, the third
  task takes its slot, the error escapes, and the wait still returns; it also returns
  when all four tasks reject.
\<close>

theorem task_rejection_contained_witness:
  "(0::nat) < length (running (run four_tasks (RequestQueue 2)))
   \<and> (Task 1 [] None, Rejected (Error None ''boom''))
        \<in> set (finished (on_settled 0 (Rejected (Error None ''boom'')) (run four_tasks (RequestQueue 2))))
   \<and> Task 3 [] None
        \<in> set (running (on_settled 0 (Rejected (Error None ''boom'')) (run four_tasks (RequestQueue 2))))
   \<and> activeCount (on_settled 0 (Rejected (Error None ''boom'')) (run four_tasks (RequestQueue 2))) = 2
   \<and> escaped (on_settled 0 (Rejected (Error None ''boom'')) (run four_tasks (RequestQueue 2)))
       = [Error None ''boom'']
   \<and> forget_result (waitUntilEmpty (forget (run four_tasks (RequestQueue 2))) (map fulfilled drain_trace))
       \<noteq> None
   \<and> queue (run all_fail (run four_tasks (RequestQueue 2))) = []
   \<and> activeCount (run all_fail (run four_tasks (RequestQueue 2))) = 0
   \<and> waitUntilEmpty (run four_tasks (RequestQueue 2)) (all_fail @ Tick # []) \<noteq> None
   \<and> node_task (Inl (Error None ''boom'')) = (Fulfilled, [Error None ''boom''])
   \<and> escaped (on_settled 0 (fst (node_task (Inl (Error None ''boom'')))) (run four_tasks (RequestQueue 2)))
       = []"
proof -
  let ?s = "run four_tasks (RequestQueue 2)"
  let ?e = "Error None ''boom''"
  have i: "(0::nat) < length (running ?s)"
    by (simp add: run_four_tasks)
  note t = task_rejection_contained [OF refl i, of ?e drain_trace all_fail "[]" "Inl ?e" 0]
  have r: "running ?s ! 0 = Task 1 [] None" and q: "queue ?s = Task 3 [] None # [Task 4 [] None]"
    and a: "activeCount ?s = 2" and x: "escaped ?s = []"
    and h: "throws (hd (queue ?s)) = None" and th: "throws (Task 3 [] None) = None"
    by (simp_all add: run_four_tasks)
  from t r have 1: "(Task 1 [] None, Rejected ?e) \<in> set (finished (on_settled 0 (Rejected ?e) ?s))"
    by simp
  from t q th have 2: "activeCount (on_settled 0 (Rejected ?e) ?s) = activeCount ?s
      \<and> Task 3 [] None \<in> set (running (on_settled 0 (Rejected ?e) ?s))
      \<and> escaped (on_settled 0 (Rejected ?e) ?s) = escaped ?s @ [?e]"
    by blast
  from t have eq: "forget_result (waitUntilEmpty ?s drain_trace)
      = forget_result (waitUntilEmpty (forget ?s) (map fulfilled drain_trace))"
    by blast
  have "forget_result (waitUntilEmpty ?s drain_trace) \<noteq> None"
    unfolding wait_four_tasks forget_result_def by simp
  then have 3: "forget_result (waitUntilEmpty (forget ?s) (map fulfilled drain_trace)) \<noteq> None"
    unfolding eq .
  have d: "queue (run all_fail ?s) = []" "activeCount (run all_fail ?s) = 0"
    by (simp_all add: run_four_tasks all_fail_def on_settled_def exec.simps)
  with t have 5: "waitUntilEmpty ?s (all_fail @ Tick # []) \<noteq> None"
    by simp
  from t have "fst (node_task (Inl ?e)) = Fulfilled \<and> snd (node_task (Inl ?e)) = [?e]"
    by blast
  then have 4: "node_task (Inl ?e) = (Fulfilled, [?e])"
    by (simp add: prod_eq_iff)
  from t h have "escaped (on_settled 0 (fst (node_task (Inl ?e))) ?s) = escaped ?s"
    by blast
  with x have 6: "escaped (on_settled 0 (fst (node_task (Inl ?e))) ?s) = []"
    by simp
  from i 1 2 a x 3 d 5 4 6 show ?thesis by simp
qed

section \<open>CacheLayer: the import cache\<close>

text \<open>
  \<^verbatim>\<open>Variable\<close> (\<^verbatim>\<open>id\<close>, \<^verbatim>\<open>name\<close>, \<^verbatim>\<open>variableCollectionId\<close>) and \<^verbatim>\<open>LibraryVariable\<close>
  (\<^verbatim>\<open>key\<close>, \<^verbatim>\<open>name\<close>), as far as the code reads them.
\<close>

record variable =
  var_id :: string
  var_name :: string
  variableCollectionId :: string

record library_variable =
  lib_key :: string
  lib_name :: string

text \<open>
  \<^verbatim>\<open>importedVariablesCache\<close>, a \<^verbatim>\<open>Map\<close> from library keys to imported variables; beside
  it, how many times the loader \<^verbatim>\<open>withRetry(() => importVariableByKeyAsync(key))\<close> has
  been invoked so far, and what \<^verbatim>\<open>console.error\<close> has been given.
\<close>

record import_state =
  importedVariablesCache :: "string \<rightharpoonup> variable"
  loads :: nat
  console :: "error list"

text \<open>
  \<^verbatim>\<open>getImportedVariable\<close> suspends once, at \<^verbatim>\<open>await withRetry(...)\<close>. The part after the
  suspension gets the loader's settlement: on success \<^verbatim>\<open>importedVariablesCache.set\<close> and
  the imported variable, on failure \<^verbatim>\<open>console.error\<close> and \<^verbatim>\<open>null\<close>.
\<close>

definition getImportedVariable_settled ::
  "library_variable \<Rightarrow> error + variable \<Rightarrow> import_state \<Rightarrow> variable option \<times> import_state" where
  "getImportedVariable_settled libVar loaded st =
     (case loaded of
        Inr imported \<Rightarrow>
          (Some imported,
           st\<lparr>importedVariablesCache := (importedVariablesCache st)(lib_key libVar \<mapsto> imported)\<rparr>)
      | Inl e \<Rightarrow> (None, st\<lparr>console := console st @ [e]\<rparr>))"

text \<open>
  The whole function when nothing else runs in between: return the cached variable if
  \<^verbatim>\<open>importedVariablesCache.has(libVar.key)\<close>, otherwise invoke the loader (\<open>load\<close> tells how
  it settles for a key) and continue as above.
\<close>

definition getImportedVariable ::
  "(string \<Rightarrow> error + variable) \<Rightarrow> library_variable \<Rightarrow> import_state \<Rightarrow> variable option \<times> import_state" where
  "getImportedVariable load libVar st =
     (case importedVariablesCache st (lib_key libVar) of
        Some cached \<Rightarrow> (Some cached, st)
      | None \<Rightarrow>
          getImportedVariable_settled libVar (load (lib_key libVar)) (st\<lparr>loads := Suc (loads st)\<rparr>))"

text \<open>
  The same function in \<^verbatim>\<open>code.ts\<close>: no retry and no \<^verbatim>\<open>catch\<close>, so a failed import is
  the function's own failure.
\<close>

definition getImportedVariable_code_ts ::
  "(string \<Rightarrow> error + variable) \<Rightarrow> library_variable \<Rightarrow> import_state \<Rightarrow> (error + variable) \<times> import_state" where
  "getImportedVariable_code_ts load libVar st =
     (case importedVariablesCache st (lib_key libVar) of
        Some cached \<Rightarrow> (Inr cached, st)
      | None \<Rightarrow>
          (case load (lib_key libVar) of
             Inr importedVar \<Rightarrow>
               (Inr importedVar,
                st\<lparr>loads := Suc (loads st),
                   importedVariablesCache := (importedVariablesCache st)(lib_key libVar \<mapsto> importedVar)\<rparr>)
           | Inl e \<Rightarrow> (Inl e, st\<lparr>loads := Suc (loads st)\<rparr>)))"

text \<open>
  Several requests for one library variable, each completing before the next begins;
  the list says how the loader would settle for each request, should it be invoked.
\<close>

fun requests_in_turn ::
  "library_variable \<Rightarrow> (error + variable) list \<Rightarrow> import_state \<Rightarrow> variable option list \<times> import_state" where
  "requests_in_turn libVar [] st = ([], st)"
| "requests_in_turn libVar (loaded # later) st =
     (case getImportedVariable (\<lambda>k. loaded) libVar st of
        (r, st') \<Rightarrow> (case requests_in_turn libVar later st' of (rs, st'') \<Rightarrow> (r # rs, st'')))"

text \<open>
  Requests that overlap. Each request is not yet made, suspended at the loader, or has
  returned; \<open>Begin i\<close> runs request \<open>i\<close> up to its suspension (or to its return, on a cache
  hit), \<open>Resume i loaded\<close> runs it from the loader's settlement to its return.
\<close>

datatype request = Pending | Loading | Returned "variable option"

datatype import_event = Begin nat | Resume nat "error + variable"

record import_run =
  shared :: import_state
  requests :: "request list"

fun import_step :: "library_variable \<Rightarrow> import_event \<Rightarrow> import_run \<Rightarrow> import_run" where
  "import_step libVar (Begin i) w =
     (if i < length (requests w) \<and> requests w ! i = Pending
      then (case importedVariablesCache (shared w) (lib_key libVar) of
              Some cached \<Rightarrow> w\<lparr>requests := (requests w)[i := Returned (Some cached)]\<rparr>
            | None \<Rightarrow> w\<lparr>shared := (shared w)\<lparr>loads := Suc (loads (shared w))\<rparr>,
                       requests := (requests w)[i := Loading]\<rparr>)
      else w)"
| "import_step libVar (Resume i loaded) w =
     (if i < length (requests w) \<and> requests w ! i = Loading
      then (case getImportedVariable_settled libVar loaded (shared w) of
              (r, st) \<Rightarrow> w\<lparr>shared := st, requests := (requests w)[i := Returned r]\<rparr>)
      else w)"

fun import_steps :: "library_variable \<Rightarrow> import_event list \<Rightarrow> import_run \<Rightarrow> import_run" where
  "import_steps libVar [] w = w"
| "import_steps libVar (e # es) w = import_steps libVar es (import_step libVar e w)"

definition fresh_run :: "nat \<Rightarrow> import_run" where
  "fresh_run n = \<lparr>shared = \<lparr>importedVariablesCache = Map.empty, loads = 0, console = []\<rparr>,
                  requests = replicate n Pending\<rparr>"

section \<open>RebindingPipeline\<close>

text \<open>
  \<^verbatim>\<open>VariableCollection\<close> (its \<^verbatim>\<open>id\<close>) and \<^verbatim>\<open>Paint\<close>: its \<^verbatim>\<open>type\<close>, the value of
  \<^verbatim>\<open>paint.boundVariables?.color?.id\<close> (\<open>None\<close> when the chain yields \<^verbatim>\<open>undefined\<close>), and
  everything else about the paint.
\<close>

record collection =
  coll_id :: string

datatype paint_type = SOLID | GRADIENT_LINEAR | IMAGE

record paint =
  paint_type :: paint_type
  boundColorId :: "string option"
  appearance :: string

text \<open>
  The host calls the pipeline makes. A lookup is a function of its argument and of the
  attempt number within one \<^verbatim>\<open>withRetry\<close> call (so that it may answer 429 first and a
  value later); it does not depend on when it is made. \<^verbatim>\<open>setBoundVariableForPaint(paint,
  'color', variable)\<close> is a pure transform of the paint.
\<close>

record host =
  getVariableByIdAsync :: "string \<Rightarrow> nat \<Rightarrow> error + variable option"
  importVariableByKeyAsync :: "string \<Rightarrow> nat \<Rightarrow> error + variable"
  getVariableCollectionByIdAsync :: "string \<Rightarrow> nat \<Rightarrow> error + collection option"
  setBoundVariableForPaint :: "paint \<Rightarrow> variable \<Rightarrow> paint"

text \<open>
  JavaScript truthiness of a \<^verbatim>\<open>string | null | undefined\<close>: \<^verbatim>\<open>null\<close>, \<^verbatim>\<open>undefined\<close> and
  the empty string are falsy.
\<close>

definition falsy :: "string option \<Rightarrow> bool" where
  "falsy x = (x = None \<or> x = Some [])"

definition isFromWebCollection :: "variable \<Rightarrow> string option \<Rightarrow> bool" where
  "isFromWebCollection v webCollectionId = (Some (variableCollectionId v) = webCollectionId)"

definition import_with_retry :: "host \<Rightarrow> string \<Rightarrow> error + variable" where
  "import_with_retry h k = retried (importVariableByKeyAsync h k)"

text \<open>
  The callback of \<^verbatim>\<open>paints.map\<close> in \<^verbatim>\<open>processPaints\<close>, for one paint, when nothing else
  runs between its steps: \<open>Inr\<close> the paint to put into \<^verbatim>\<open>updatedPaints\<close>, or \<open>Inl\<close> the
  rejection (only the variable lookup can reject here; \<^verbatim>\<open>getImportedVariable\<close> catches
  its own).
\<close>

definition rebind ::
  "host \<Rightarrow> (string \<rightharpoonup> library_variable) \<Rightarrow> string option \<Rightarrow> paint \<Rightarrow> import_state
     \<Rightarrow> (error + paint) \<times> import_state" where
  "rebind h webVariablesMap webCollectionId p st =
     (if paint_type p \<noteq> SOLID \<or> falsy (boundColorId p) then (Inr p, st)
      else
        (case boundColorId p of
           None \<Rightarrow> (Inr p, st)
         | Some variableId \<Rightarrow>
        (case retried (getVariableByIdAsync h variableId) of
           Inl e \<Rightarrow> (Inl e, st)
         | Inr None \<Rightarrow> (Inr p, st)
         | Inr (Some v) \<Rightarrow>
             if \<not> falsy webCollectionId \<and> isFromWebCollection v webCollectionId then (Inr p, st)
             else
               (case webVariablesMap (var_name v) of
                  None \<Rightarrow> (Inr p, st)
                | Some libVar \<Rightarrow>
                    (case getImportedVariable (import_with_retry h) libVar st of
                       (None, st') \<Rightarrow> (Inr p, st')
                     | (Some imported, st') \<Rightarrow>
                         (Inr (setBoundVariableForPaint h p imported), st'))))))"

text \<open>
  Under \<^verbatim>\<open>Promise.all\<close> the callbacks of a slot run interleaved, and so do the two slots of
  a node. A callback suspends at most twice: at \<^verbatim>\<open>await withRetry(() =>
  getVariableByIdAsync(variableId))\<close>, and inside \<^verbatim>\<open>getImportedVariable\<close> at
  \<^verbatim>\<open>await withRetry(() => importVariableByKeyAsync(libVar.key))\<close>. An entry of the array
  given to \<^verbatim>\<open>Promise.all\<close> is a callback suspended at one of the two, or its settled
  promise.
\<close>

datatype entry =
  AwaitLookup paint string
| AwaitImport paint library_variable
| Done "error + paint"

text \<open>
  \<open>start\<close> is the callback up to its first suspension: \<^verbatim>\<open>paints.map\<close> runs this part of
  every callback before anything else happens. \<open>resume\<close> runs a suspended callback from
  the settlement it waits for up to its next suspension or its return. After the lookup
  the cache test of \<^verbatim>\<open>getImportedVariable\<close> follows at once: on a hit the callback goes on
  to its return, on a miss the loader is invoked and the callback suspends again.
\<close>

definition start :: "paint \<Rightarrow> entry" where
  "start p =
     (if paint_type p \<noteq> SOLID \<or> falsy (boundColorId p) then Done (Inr p)
      else (case boundColorId p of
              None \<Rightarrow> Done (Inr p)
            | Some variableId \<Rightarrow> AwaitLookup p variableId))"

fun resume ::
  "host \<Rightarrow> (string \<rightharpoonup> library_variable) \<Rightarrow> string option \<Rightarrow> entry \<Rightarrow> import_state
     \<Rightarrow> entry \<times> import_state" where
  "resume h webVariablesMap webCollectionId (AwaitLookup p variableId) st =
     (case retried (getVariableByIdAsync h variableId) of
        Inl e \<Rightarrow> (Done (Inl e), st)
      | Inr None \<Rightarrow> (Done (Inr p), st)
      | Inr (Some v) \<Rightarrow>
          if \<not> falsy webCollectionId \<and> isFromWebCollection v webCollectionId then (Done (Inr p), st)
          else
            (case webVariablesMap (var_name v) of
               None \<Rightarrow> (Done (Inr p), st)
             | Some libVar \<Rightarrow>
                 (case importedVariablesCache st (lib_key libVar) of
                    Some cached \<Rightarrow> (Done (Inr (setBoundVariableForPaint h p cached)), st)
                  | None \<Rightarrow> (AwaitImport p libVar, st\<lparr>loads := Suc (loads st)\<rparr>))))"
| "resume h webVariablesMap webCollectionId (AwaitImport p libVar) st =
     (case getImportedVariable_settled libVar (import_with_retry h (lib_key libVar)) st of
        (None, st') \<Rightarrow> (Done (Inr p), st')
      | (Some imported, st') \<Rightarrow> (Done (Inr (setBoundVariableForPaint h p imported)), st'))"
| "resume h webVariablesMap webCollectionId (Done r) st = (Done r, st)"

fun rejection_of :: "entry \<Rightarrow> error option" where
  "rejection_of (Done (Inl e)) = Some e"
| "rejection_of (Done (Inr p)) = None"
| "rejection_of (AwaitLookup p variableId) = None"
| "rejection_of (AwaitImport p libVar) = None"

text \<open>
  The callbacks in flight, the import cache they share, and the rejection
  \<^verbatim>\<open>Promise.all\<close> has taken: that of the entry that rejected first in time. A turn resumes
  the entry at one position; a turn for a settled entry or for no entry changes
  nothing.
\<close>

record paint_run =
  entries :: "entry list"
  store :: import_state
  first_rejection :: "error option"

definition take_turn ::
  "host \<Rightarrow> (string \<rightharpoonup> library_variable) \<Rightarrow> string option \<Rightarrow> nat \<Rightarrow> paint_run \<Rightarrow> paint_run" where
  "take_turn h webVariablesMap webCollectionId i r =
     (if i < length (entries r)
      then (case resume h webVariablesMap webCollectionId (entries r ! i) (store r) of
              (e, st) \<Rightarrow>
                \<lparr>entries = (entries r)[i := e], store = st,
                 first_rejection =
                   (case first_rejection r of
                      Some earlier \<Rightarrow> Some earlier
                    | None \<Rightarrow> rejection_of e)\<rparr>)
      else r)"

fun take_turns ::
  "host \<Rightarrow> (string \<rightharpoonup> library_variable) \<Rightarrow> string option \<Rightarrow> nat list \<Rightarrow> paint_run \<Rightarrow> paint_run" where
  "take_turns h webVariablesMap webCollectionId [] r = r"
| "take_turns h webVariablesMap webCollectionId (i # turns) r =
     take_turns h webVariablesMap webCollectionId turns (take_turn h webVariablesMap webCollectionId i r)"

text \<open>
  Every lookup and every import settles (\<^verbatim>\<open>withRetry\<close> gives up after its last attempt),
  in an order that is the host's. \<open>settle_all\<close> takes the turns of a schedule and then
  resumes whatever is still suspended, by position, until every entry has settled; any
  order of settlements is the beginning of such a run.
\<close>

definition settle_all ::
  "host \<Rightarrow> (string \<rightharpoonup> library_variable) \<Rightarrow> string option \<Rightarrow> nat list \<Rightarrow> paint_run \<Rightarrow> paint_run" where
  "settle_all h webVariablesMap webCollectionId schedule r =
     take_turns h webVariablesMap webCollectionId
       (schedule @ [0..<length (entries r)] @ [0..<length (entries r)]) r"

text \<open>
  The value of \<^verbatim>\<open>Promise.all\<close> when every entry has fulfilled.
\<close>

fun all_values :: "entry list \<Rightarrow> paint list option" where
  "all_values [] = Some []"
| "all_values (Done (Inr p) # es) = map_option ((#) p) (all_values es)"
| "all_values (Done (Inl e) # es) = None"
| "all_values (AwaitLookup p variableId # es) = None"
| "all_values (AwaitImport p libVar # es) = None"

text \<open>
  A scene node as the pipeline sees it: its type, the types of \<^verbatim>\<open>node.parent\<close>,
  \<^verbatim>\<open>node.parent.parent\<close>, ... up to the root, the two paint slots (\<open>None\<close> when the value is
  not an array) and \<^verbatim>\<open>explicitVariableModes\<close> as the ordered list of its entries (\<open>None\<close>
  when the node has no such property).
\<close>

datatype node_type = DOCUMENT | PAGE | FRAME | GROUP | COMPONENT | INSTANCE | RECTANGLE | TEXT

record node =
  node_type :: node_type
  ancestors :: "node_type list"
  fills :: "paint list option"
  strokes :: "paint list option"
  explicitVariableModes :: "(string \<times> string) list option"

datatype paint_slot = Fills | Strokes

fun read_slot :: "paint_slot \<Rightarrow> node \<Rightarrow> paint list option" where
  "read_slot Fills n = fills n"
| "read_slot Strokes n = strokes n"

fun write_slot :: "paint_slot \<Rightarrow> paint list \<Rightarrow> node \<Rightarrow> node" where
  "write_slot Fills ps n = n\<lparr>fills := Some ps\<rparr>"
| "write_slot Strokes ps n = n\<lparr>strokes := Some ps\<rparr>"

text \<open>
  \<^verbatim>\<open>processPaints\<close> in two parts. Up to \<^verbatim>\<open>await Promise.all(...)\<close> it reads the slot
  (\<^verbatim>\<open>const paints\<close>) and starts a callback for every paint (none if the slot is not an
  array). After it, which is reached only if no entry has rejected, it compares
  \<^verbatim>\<open>paints\<close> with the values and writes:
  \<^verbatim>\<open>JSON.stringify(paints) !== JSON.stringify(updatedPaints)\<close> is inequality of the two
  lists.
\<close>

definition processPaints_begin :: "paint list option \<Rightarrow> entry list" where
  "processPaints_begin paints =
     (case paints of
        None \<Rightarrow> []
      | Some paints \<Rightarrow> map start paints)"

definition processPaints_end :: "paint_slot \<Rightarrow> paint list option \<Rightarrow> entry list \<Rightarrow> node \<Rightarrow> node" where
  "processPaints_end paintType paints settled n =
     (case paints of
        None \<Rightarrow> n
      | Some paints \<Rightarrow>
          (case all_values settled of
             None \<Rightarrow> n
           | Some updatedPaints \<Rightarrow>
               (let paintsChanged = (paints \<noteq> updatedPaints)
                in if paintsChanged then write_slot paintType updatedPaints n else n)))"

text \<open>
  \<^verbatim>\<open>processPaints\<close> for one slot, its callbacks resumed in the order of the schedule: the
  rejection if there is one, the node afterwards, the import state afterwards.
\<close>

definition processPaints ::
  "host \<Rightarrow> paint_slot \<Rightarrow> (string \<rightharpoonup> library_variable) \<Rightarrow> string option \<Rightarrow> node \<Rightarrow> import_state
     \<Rightarrow> nat list \<Rightarrow> error option \<times> node \<times> import_state" where
  "processPaints h paintType webVariablesMap webCollectionId n st schedule =
     (let paints = read_slot paintType n;
          r = settle_all h webVariablesMap webCollectionId schedule
                \<lparr>entries = processPaints_begin paints, store = st, first_rejection = None\<rparr>
      in (first_rejection r, processPaints_end paintType paints (entries r) n, store r))"

text \<open>
  \<^verbatim>\<open>isNestedInInstance\<close>: the \<^verbatim>\<open>while (current)\<close> loop up the parent chain.
\<close>

fun isNestedInInstance_loop :: "node_type list \<Rightarrow> bool" where
  "isNestedInInstance_loop [] = False"
| "isNestedInInstance_loop (current # up) =
     (if current = INSTANCE then True else isNestedInInstance_loop up)"

definition isNestedInInstance :: "node \<Rightarrow> bool" where
  "isNestedInInstance n = isNestedInInstance_loop (ancestors n)"

text \<open>
  \<^verbatim>\<open>reassignVariableModes\<close> acts on the node through two host methods; the model returns
  the calls it makes, in order, and what it reports to the console. The collection of an
  entry is looked up with retry; a failed lookup is reported and counts as \<^verbatim>\<open>null\<close>. The
  lookups run under \<^verbatim>\<open>Promise.all\<close> and each reports its failure when it settles, so the
  reports are kept as a multiset; the calls are made after all lookups have settled, in
  the order of the mapping.
\<close>

datatype mode_call =
  ClearExplicitVariableModeForCollection collection
| SetExplicitVariableModeForCollection collection string

definition resolve_collection :: "host \<Rightarrow> string \<Rightarrow> collection option \<times> error list" where
  "resolve_collection h collId =
     (case retried (getVariableCollectionByIdAsync h collId) of
        Inl e \<Rightarrow> (None, [e])
      | Inr c \<Rightarrow> (c, []))"

fun present :: "'a option list \<Rightarrow> 'a list" where
  "present [] = []"
| "present (None # xs) = present xs"
| "present (Some x # xs) = x # present xs"

definition reassignVariableModes ::
  "host \<Rightarrow> node \<Rightarrow> collection option \<Rightarrow> mode_call list \<times> error multiset" where
  "reassignVariableModes h n webCollection =
     (case explicitVariableModes n of
        None \<Rightarrow> ([], {#})
      | Some modes \<Rightarrow>
          if modes = [] then ([], {#})
          else
            (let looked_up = map (resolve_collection h) (map fst modes);
                 collections = map fst looked_up;
                 clears = map ClearExplicitVariableModeForCollection (present collections)
             in (case webCollection of
                   None \<Rightarrow> (clears, mset (concat (map snd looked_up)))
                 | Some web \<Rightarrow>
                     (clears @ map (SetExplicitVariableModeForCollection web) (map snd modes),
                      mset (concat (map snd looked_up))))))"

text \<open>
  Modelled from the spec: the host's \<^verbatim>\<open>clearExplicitMode(node, collection)\<close> and
  \<^verbatim>\<open>setExplicitMode(node, collection, modeId)\<close> (section 6: host-side mutation of the
  node's explicit collection-to-mode mapping), which are not code of this repository.
  Clearing removes the collection's entry; setting replaces the collection's entry or
  adds one, so a collection has at most one explicit mode.
\<close>

fun set_mode :: "string \<Rightarrow> string \<Rightarrow> (string \<times> string) list \<Rightarrow> (string \<times> string) list" where
  "set_mode c m [] = [(c, m)]"
| "set_mode c m ((c', m') # ms) = (if c' = c then (c, m) # ms else (c', m') # set_mode c m ms)"

fun perform :: "mode_call \<Rightarrow> (string \<times> string) list \<Rightarrow> (string \<times> string) list" where
  "perform (ClearExplicitVariableModeForCollection c) ms = filter (\<lambda>(c', m). c' \<noteq> coll_id c) ms"
| "perform (SetExplicitVariableModeForCollection c m) ms = set_mode (coll_id c) m ms"

fun perform_all :: "mode_call list \<Rightarrow> (string \<times> string) list \<Rightarrow> (string \<times> string) list" where
  "perform_all [] ms = ms"
| "perform_all (c # cs) ms = perform_all cs (perform c ms)"

definition after_calls :: "mode_call list \<Rightarrow> node \<Rightarrow> node" where
  "after_calls cs n =
     (case explicitVariableModes n of
        None \<Rightarrow> n
      | Some ms \<Rightarrow> n\<lparr>explicitVariableModes := Some (perform_all cs ms)\<rparr>)"

text \<open>
  \<^verbatim>\<open>processSingleNode\<close>. Both calls of \<^verbatim>\<open>processPaints\<close> run up to their
  \<^verbatim>\<open>await Promise.all(...)\<close> before anything settles, the fills first; from there on the
  callbacks of both slots are resumed in the order of the schedule, a turn counting the
  entries of the fills first and those of the strokes after them. The outer
  \<^verbatim>\<open>Promise.all\<close> rejects with the rejection that came first in time, and then
  \<^verbatim>\<open>reassignVariableModes\<close> is not reached; nothing cancels the callbacks still in flight,
  and a slot none of whose entries rejects is compared and written whatever became of
  the other slot. The result is taken when everything has settled: the rejection (if
  any), the node and the import state, the mode calls made and what the mode lookups
  reported. The run is that of one node's task; the import state it starts on is what
  the tasks before it have left.
\<close>

record node_run =
  rejected :: "error option"
  node_after :: node
  state_after :: import_state
  mode_calls :: "mode_call list"
  mode_reports :: "error multiset"

definition processSingleNode ::
  "host \<Rightarrow> (string \<rightharpoonup> library_variable) \<Rightarrow> collection option \<Rightarrow> node \<Rightarrow> import_state
     \<Rightarrow> nat list \<Rightarrow> node_run" where
  "processSingleNode h webVariablesMap webCollection n st schedule =
     (let webCollectionId = map_option coll_id webCollection;
          fill_paints = read_slot Fills n;
          fill_entries = processPaints_begin fill_paints;
          stroke_paints = read_slot Strokes n;
          stroke_entries = processPaints_begin stroke_paints;
          r = settle_all h webVariablesMap webCollectionId schedule
                \<lparr>entries = fill_entries @ stroke_entries, store = st, first_rejection = None\<rparr>;
          n' = processPaints_end Strokes stroke_paints (drop (length fill_entries) (entries r))
                 (processPaints_end Fills fill_paints (take (length fill_entries) (entries r)) n)
      in (case first_rejection r of
            Some e \<Rightarrow>
              \<lparr>rejected = Some e, node_after = n', state_after = store r, mode_calls = [],
               mode_reports = {#}\<rparr>
          | None \<Rightarrow>
              if \<not> isNestedInInstance n
              then (case reassignVariableModes h n' webCollection of
                      (calls, reports) \<Rightarrow>
                        \<lparr>rejected = None, node_after = after_calls calls n', state_after = store r,
                         mode_calls = calls, mode_reports = reports\<rparr>)
              else \<lparr>rejected = None, node_after = n', state_after = store r, mode_calls = [],
                    mode_reports = {#}\<rparr>))"

text \<open>
  How \<^verbatim>\<open>main\<close> finds the target collection: import the catalog's first variable and look
  up its collection; any failure leaves \<^verbatim>\<open>webCollection\<close> at \<^verbatim>\<open>null\<close>.
\<close>

definition main_webCollection ::
  "host \<Rightarrow> library_variable option \<Rightarrow> import_state \<Rightarrow> collection option \<times> import_state" where
  "main_webCollection h firstLibVar st =
     (case firstLibVar of
        None \<Rightarrow> (None, st)
      | Some libVar \<Rightarrow>
          (case getImportedVariable (import_with_retry h) libVar st of
             (None, st') \<Rightarrow> (None, st')
           | (Some imported, st') \<Rightarrow>
               (case retried (getVariableCollectionByIdAsync h (variableCollectionId imported)) of
                  Inl e \<Rightarrow> (None, st'\<lparr>console := console st' @ [e]\<rparr>)
                | Inr c \<Rightarrow> (c, st'))))"

text \<open>
  What the claims say about paints: a solid paint with a bound colour variable; such a
  paint whose variable the host resolves to a variable of the collection \<open>cid\<close>; and such
  a paint whose variable the host fails to look up.
\<close>

definition bound_solid :: "paint \<Rightarrow> bool" where
  "bound_solid p = (paint_type p = SOLID \<and> \<not> falsy (boundColorId p))"

definition resolves_into :: "host \<Rightarrow> string \<Rightarrow> paint \<Rightarrow> bool" where
  "resolves_into h cid p =
     (case boundColorId p of
        None \<Rightarrow> False
      | Some variableId \<Rightarrow>
          (case retried (getVariableByIdAsync h variableId) of
             Inr (Some v) \<Rightarrow> variableCollectionId v = cid
           | _ \<Rightarrow> False))"

definition lookup_rejects :: "host \<Rightarrow> paint \<Rightarrow> bool" where
  "lookup_rejects h p =
     (bound_solid p \<and>
      (case boundColorId p of
         None \<Rightarrow> False
       | Some variableId \<Rightarrow> isl (retried (getVariableByIdAsync h variableId))))"

subsection \<open>A small document for the examples\<close>

text \<open>
  The catalog has one variable, \<open>color/primary\<close>, which imports as \<open>web_var\<close> of the
  collection \<open>VariableCollectionId:1:0\<close>. The document has a local variable of the same name
  in another collection. The host resolves every collection but \<open>VariableCollectionId:9:0\<close>;
  \<open>offline_host\<close> resolves none.
\<close>

definition primary :: library_variable where
  "primary = \<lparr>lib_key = ''k1'', lib_name = ''color/primary''\<rparr>"

definition web_var :: variable where
  "web_var = \<lparr>var_id = ''VariableID:1:1'', var_name = ''color/primary'',
              variableCollectionId = ''VariableCollectionId:1:0''\<rparr>"

definition local_var :: variable where
  "local_var = \<lparr>var_id = ''VariableID:7:1'', var_name = ''color/primary'',
                variableCollectionId = ''VariableCollectionId:7:0''\<rparr>"

definition web_collection :: collection where
  "web_collection = \<lparr>coll_id = ''VariableCollectionId:1:0''\<rparr>"

definition catalog :: "string \<rightharpoonup> library_variable" where
  "catalog = [''color/primary'' \<mapsto> primary]"

definition demo_host :: host where
  "demo_host =
     \<lparr>getVariableByIdAsync = (\<lambda>i k.
          if i = ''VariableID:1:1'' then Inr (Some web_var)
          else if i = ''VariableID:7:1'' then Inr (Some local_var)
          else Inr None),
      importVariableByKeyAsync = (\<lambda>key k.
          if key = ''k1'' then Inr web_var else Inl (Error (Some 404) ''unknown key'')),
      getVariableCollectionByIdAsync = (\<lambda>i k.
          if i = ''VariableCollectionId:9:0'' then Inl (Error (Some 500) ''unavailable'')
          else Inr (Some \<lparr>coll_id = i\<rparr>)),
      setBoundVariableForPaint = (\<lambda>p v. p\<lparr>boundColorId := Some (var_id v)\<rparr>)\<rparr>"

definition offline_host :: host where
  "offline_host =
     demo_host\<lparr>getVariableCollectionByIdAsync := (\<lambda>i k. Inl (Error (Some 500) ''unavailable''))\<rparr>"

definition empty_state :: import_state where
  "empty_state = \<lparr>importedVariablesCache = Map.empty, loads = 0, console = []\<rparr>"

definition warm_state :: import_state where
  "warm_state = \<lparr>importedVariablesCache = [''k1'' \<mapsto> web_var], loads = 1, console = []\<rparr>"

definition local_fill :: paint where
  "local_fill = \<lparr>paint_type = SOLID, boundColorId = Some ''VariableID:7:1'', appearance = ''#3366ff''\<rparr>"

definition web_fill :: paint where
  "web_fill = \<lparr>paint_type = SOLID, boundColorId = Some ''VariableID:1:1'', appearance = ''#3366ff''\<rparr>"

definition plain_stroke :: paint where
  "plain_stroke = \<lparr>paint_type = SOLID, boundColorId = None, appearance = ''#000000''\<rparr>"

definition nested_node :: node where
  "nested_node =
     \<lparr>node_type = RECTANGLE, ancestors = [GROUP, INSTANCE, FRAME, PAGE, DOCUMENT],
      fills = Some [local_fill], strokes = Some [plain_stroke],
      explicitVariableModes = Some [(''VariableCollectionId:7:0'', ''7:1'')]\<rparr>"

definition themed_node :: node where
  "themed_node =
     \<lparr>node_type = FRAME, ancestors = [PAGE, DOCUMENT],
      fills = Some [web_fill], strokes = Some [plain_stroke],
      explicitVariableModes =
        Some [(''VariableCollectionId:7:0'', ''7:1''), (''VariableCollectionId:8:0'', ''8:2'')]\<rparr>"

definition single_mode_node :: node where
  "single_mode_node =
     \<lparr>node_type = FRAME, ancestors = [PAGE, DOCUMENT], fills = None, strokes = None,
      explicitVariableModes = Some [(''VariableCollectionId:7:0'', ''7:1'')]\<rparr>"

lemma retried_success: "fn 0 = Inr v \<Longrightarrow> retried fn = Inr v"
  by (simp add: retried_def withRetry_success)

lemma retried_failure: "fn 0 = Inl e \<Longrightarrow> \<not> rate_limited e \<Longrightarrow> retried fn = Inl e"
  by (simp add: retried_def withRetry_give_up)

lemma retried_eval:
  "retried fn =
     (case fn 0 of
        Inr v \<Rightarrow> Inr v
      | Inl e \<Rightarrow> if rate_limited e then outcome (withRetry fn 1 2 2000) else Inl e)"
  unfolding retried_def
  by (subst withRetry.simps) (simp add: Let_def split: sum.splits)

lemma find_web_var: "retried (getVariableByIdAsync demo_host ''VariableID:1:1'') = Inr (Some web_var)"
  by (simp add: retried_eval demo_host_def)

lemma find_local_var: "retried (getVariableByIdAsync demo_host ''VariableID:7:1'') = Inr (Some local_var)"
  by (simp add: retried_eval demo_host_def)

lemma import_primary: "import_with_retry demo_host ''k1'' = Inr web_var"
  by (simp add: import_with_retry_def retried_eval demo_host_def)

lemma find_collection:
  "i \<noteq> ''VariableCollectionId:9:0'' \<Longrightarrow>
   resolve_collection demo_host i = (Some \<lparr>coll_id = i\<rparr>, [])"
  by (simp add: resolve_collection_def retried_eval demo_host_def)

subsection \<open>Import deduplication\<close>

lemma getImportedVariable_hit:
  "importedVariablesCache st (lib_key libVar) = Some cached \<Longrightarrow>
   getImportedVariable load libVar st = (Some cached, st)"
  by (simp add: getImportedVariable_def)

lemma getImportedVariable_miss_ok:
  "importedVariablesCache st (lib_key libVar) = None \<Longrightarrow> load (lib_key libVar) = Inr v \<Longrightarrow>
   getImportedVariable load libVar st =
     (Some v, st\<lparr>loads := Suc (loads st),
                 importedVariablesCache := (importedVariablesCache st)(lib_key libVar \<mapsto> v)\<rparr>)"
  by (simp add: getImportedVariable_def getImportedVariable_settled_def)

lemma getImportedVariable_miss_fail:
  "importedVariablesCache st (lib_key libVar) = None \<Longrightarrow> load (lib_key libVar) = Inl e \<Longrightarrow>
   getImportedVariable load libVar st =
     (None, st\<lparr>loads := Suc (loads st), console := console st @ [e]\<rparr>)"
  by (simp add: getImportedVariable_def getImportedVariable_settled_def)

lemma requests_in_turn_hit:
  "importedVariablesCache st (lib_key libVar) = Some cached \<Longrightarrow>
   requests_in_turn libVar os st = (replicate (length os) (Some cached), st)"
  by (induction os) (simp_all add: getImportedVariable_hit)

text \<open>
  Requests in turn on a key that is not cached: the leading failures each invoke the
  loader, are reported and return \<^verbatim>\<open>null\<close>; the first success is one more invocation, is
  written to the cache and is what that request and every later one returns.
\<close>

lemma requests_in_turn_miss:
  assumes "importedVariablesCache st (lib_key libVar) = None"
  shows "requests_in_turn libVar os st =
     (replicate (length (takeWhile isl os)) None
        @ replicate (length (dropWhile isl os)) (Some (projr (hd (dropWhile isl os)))),
      st\<lparr>loads := loads st + min (Suc (length (takeWhile isl os))) (length os),
         console := console st @ map projl (takeWhile isl os),
         importedVariablesCache :=
           (case dropWhile isl os of
              [] \<Rightarrow> importedVariablesCache st
            | loaded # later \<Rightarrow> (importedVariablesCache st)(lib_key libVar \<mapsto> projr loaded))\<rparr>)"
  using assms
proof (induction os arbitrary: st)
  case Nil
  show ?case by simp
next
  case (Cons loaded later)
  show ?case
  proof (cases loaded)
    case (Inr v)
    let ?st = "st\<lparr>loads := Suc (loads st),
                   importedVariablesCache := (importedVariablesCache st)(lib_key libVar \<mapsto> v)\<rparr>"
    have 1: "getImportedVariable (\<lambda>k. loaded) libVar st = (Some v, ?st)"
      using Cons.prems Inr by (simp add: getImportedVariable_miss_ok)
    have 2: "requests_in_turn libVar later ?st = (replicate (length later) (Some v), ?st)"
      by (rule requests_in_turn_hit) simp
    show ?thesis using 1 2 Inr by (simp add: fun_upd_def)
  next
    case (Inl e)
    let ?st = "st\<lparr>loads := Suc (loads st), console := console st @ [e]\<rparr>"
    have 1: "getImportedVariable (\<lambda>k. loaded) libVar st = (None, ?st)"
      using Cons.prems Inl by (simp add: getImportedVariable_miss_fail)
    have "importedVariablesCache ?st (lib_key libVar) = None"
      using Cons.prems by simp
    from Cons.IH [OF this] 1 Inl show ?thesis by (simp cong: list.case_cong)
  qed
qed

lemma import_steps_append:
  "import_steps libVar (es @ fs) w = import_steps libVar fs (import_steps libVar es w)"
  by (induction es arbitrary: w) simp_all

text \<open>
  The state after the first \<open>j\<close> of \<open>n\<close> requests have begun on an empty cache and none
  has resumed.
\<close>

definition begun :: "nat \<Rightarrow> nat \<Rightarrow> import_run" where
  "begun n j = \<lparr>shared = \<lparr>importedVariablesCache = Map.empty, loads = j, console = []\<rparr>,
               requests = replicate j Loading @ replicate (n - j) Pending\<rparr>"

lemma begin_one: "j < n \<Longrightarrow> import_step libVar (Begin j) (begun n j) = begun n (Suc j)"
proof -
  assume j: "j < n"
  then obtain m where m: "n - j = Suc m" "n - Suc j = m"
    by (cases "n - j") auto
  have "(replicate j Loading @ replicate (Suc m) Pending) ! j = Pending"
    by (simp add: nth_append)
  moreover have "(replicate j Loading @ replicate (Suc m) Pending)[j := Loading]
      = replicate (Suc j) Loading @ replicate m Pending"
    by (simp add: list_update_append replicate_append_same)
  ultimately show ?thesis using j m by (simp add: begun_def)
qed

lemma begin_all: "j \<le> n \<Longrightarrow> import_steps libVar (map Begin [0..<j]) (begun n 0) = begun n j"
proof (induction j)
  case 0
  show ?case by simp
next
  case (Suc j)
  have "import_steps libVar (map Begin [0..<Suc j]) (begun n 0)
      = import_step libVar (Begin j) (import_steps libVar (map Begin [0..<j]) (begun n 0))"
    by (simp add: import_steps_append del: import_step.simps)
  also have "\<dots> = import_step libVar (Begin j) (begun n j)"
    using Suc by simp
  also have "\<dots> = begun n (Suc j)"
    using Suc.prems by (intro begin_one) simp
  finally show ?case .
qed

lemma fresh_run_begun: "fresh_run n = begun n 0"
  by (simp add: fresh_run_def begun_def)

text \<open>
  \<open>n\<close> requests that have all begun on an empty cache, some of them resumed since, in the
  order \<open>js\<close>; request \<open>i\<close> finds its import settled as \<open>out i\<close>.
\<close>

definition overlapped :: "library_variable \<Rightarrow> nat \<Rightarrow> (nat \<Rightarrow> error + variable) \<Rightarrow> nat list \<Rightarrow> import_run" where
  "overlapped libVar n out js =
     \<lparr>shared =
        \<lparr>importedVariablesCache =
           fold (\<lambda>i cache. case out i of Inr v \<Rightarrow> cache(lib_key libVar \<mapsto> v) | Inl e \<Rightarrow> cache)
             js Map.empty,
         loads = n,
         console = concat (map (\<lambda>i. case out i of Inl e \<Rightarrow> [e] | Inr v \<Rightarrow> []) js)\<rparr>,
      requests =
        map (\<lambda>i. if i \<in> set js
                  then Returned (case out i of Inr v \<Rightarrow> Some v | Inl e \<Rightarrow> None)
                  else Loading) [0..<n]\<rparr>"

lemma overlapped_none: "overlapped libVar n out [] = begun n n"
  by (simp add: overlapped_def begun_def map_replicate_const)

lemma resume_one:
  assumes "j < n" and "j \<notin> set js"
  shows "import_step libVar (Resume j (out j)) (overlapped libVar n out js)
           = overlapped libVar n out (js @ [j])"
proof -
  have l: "requests (overlapped libVar n out js) ! j = Loading"
    using assms by (simp add: overlapped_def)
  have len: "j < length (requests (overlapped libVar n out js))"
    using assms by (simp add: overlapped_def)
  have upd: "(requests (overlapped libVar n out js))[j := Returned r]
      = map (\<lambda>i. if i \<in> set (js @ [j])
                  then Returned (case out i of Inr v \<Rightarrow> Some v | Inl e \<Rightarrow> None)
                  else Loading) [0..<n]"
    if "r = (case out j of Inr v \<Rightarrow> Some v | Inl e \<Rightarrow> None)" for r
    using assms that by (intro nth_equalityI) (auto simp: overlapped_def nth_list_update)
  show ?thesis
  proof (cases "out j")
    case (Inl e)
    with l len upd [of None] show ?thesis
      by (simp add: getImportedVariable_settled_def) (simp add: overlapped_def)
  next
    case (Inr v)
    with l len upd [of "Some v"] show ?thesis
      by (simp add: getImportedVariable_settled_def) (simp add: overlapped_def)
  qed
qed

lemma resume_all:
  assumes "distinct js" and "set js \<subseteq> {..<n}"
  shows "import_steps libVar (map (\<lambda>i. Resume i (out i)) js) (begun n n) = overlapped libVar n out js"
  using assms
proof (induction js rule: rev_induct)
  case Nil
  show ?case by (simp add: overlapped_none)
next
  case (snoc j js)
  then have "import_steps libVar (map (\<lambda>i. Resume i (out i)) js) (begun n n) = overlapped libVar n out js"
    by simp
  moreover from snoc.prems have "j < n" "j \<notin> set js" by auto
  ultimately show ?case
    by (simp add: import_steps_append resume_one del: import_step.simps)
qed

lemma in_turn_example:
  "requests_in_turn primary [Inl (Error (Some 404) ''gone''), Inr web_var, Inr web_var] empty_state
     = ([None, Some web_var, Some web_var],
        \<lparr>importedVariablesCache = [''k1'' \<mapsto> web_var], loads = 2,
         console = [Error (Some 404) ''gone'']\<rparr>)"
  by (simp add: getImportedVariable_def getImportedVariable_settled_def primary_def empty_state_def)

text \<open>
  Claim C3 as stated fails. Two tasks request the same key and both reach the cache
  test before either import has completed: two imports are performed (and each result is
  written to the cache). If the first of the two imports fails, the first task gets
  \<^verbatim>\<open>null\<close> and the second the variable, so the tasks are not given the same value either.
\<close>

theorem getImportedVariable_overlap_counterexample:
  "loads (shared (import_steps primary
      [Begin 0, Begin 1, Resume 0 (Inr web_var), Resume 1 (Inr web_var)] (fresh_run 2))) = 2
   \<and> requests (import_steps primary
      [Begin 0, Begin 1, Resume 0 (Inl (Error (Some 500) ''unavailable'')), Resume 1 (Inr web_var)]
      (fresh_run 2)) = [Returned None, Returned (Some web_var)]"
  by (simp add: fresh_run_def getImportedVariable_settled_def primary_def numeral_2_eq_2)

text \<open>
  Claim C3, amended. A request made while the key is cached returns the cached variable
  and changes nothing: the loader is not invoked (in \<^verbatim>\<open>code.ts\<close> as well), and so it is
  for any number of further requests, whatever the loader would have answered. Of \<open>N\<close>
  requests made in turn for a key that is not cached, those before the first success
  (say \<open>a\<close> of them) each invoke the loader, fail, are reported and return \<^verbatim>\<open>null\<close>; the
  next invokes the loader once more, its import is written to the cache, and it and
  every request after it return that one variable: \<open>min (a + 1) N\<close> invocations in all.
  \<open>N\<close> requests that all begin before any import has completed invoke the loader \<open>N\<close>
  times; as their imports settle, in whatever order, each failure is reported and
  returns \<^verbatim>\<open>null\<close>, each success is written to the cache and returned.
\<close>

theorem getImportedVariable_dedup:
  "(importedVariablesCache st (lib_key libVar) = Some cached \<longrightarrow>
      getImportedVariable load libVar st = (Some cached, st)
      \<and> getImportedVariable_code_ts load libVar st = (Inr cached, st)
      \<and> requests_in_turn libVar os st = (replicate (length os) (Some cached), st))
   \<and> (importedVariablesCache st (lib_key libVar) = None \<longrightarrow>
      requests_in_turn libVar os st =
        (replicate (length (takeWhile isl os)) None
           @ replicate (length (dropWhile isl os)) (Some (projr (hd (dropWhile isl os)))),
         st\<lparr>loads := loads st + min (Suc (length (takeWhile isl os))) (length os),
            console := console st @ map projl (takeWhile isl os),
            importedVariablesCache :=
              (case dropWhile isl os of
                 [] \<Rightarrow> importedVariablesCache st
               | loaded # later \<Rightarrow> (importedVariablesCache st)(lib_key libVar \<mapsto> projr loaded))\<rparr>))
   \<and> (distinct js \<and> set js \<subseteq> {..<n} \<longrightarrow>
      import_steps libVar (map Begin [0..<n] @ map (\<lambda>i. Resume i (out i)) js) (fresh_run n)
        = \<lparr>shared =
             \<lparr>importedVariablesCache =
                fold (\<lambda>i cache. case out i of Inr v \<Rightarrow> cache(lib_key libVar \<mapsto> v) | Inl e \<Rightarrow> cache)
                  js Map.empty,
              loads = n,
              console = concat (map (\<lambda>i. case out i of Inl e \<Rightarrow> [e] | Inr v \<Rightarrow> []) js)\<rparr>,
           requests =
             map (\<lambda>i. if i \<in> set js
                       then Returned (case out i of Inr v \<Rightarrow> Some v | Inl e \<Rightarrow> None)
                       else Loading) [0..<n]\<rparr>)"
proof (intro conjI impI)
  assume hit: "importedVariablesCache st (lib_key libVar) = Some cached"
  then show "getImportedVariable load libVar st = (Some cached, st)"
    by (rule getImportedVariable_hit)
  from hit show "getImportedVariable_code_ts load libVar st = (Inr cached, st)"
    by (simp add: getImportedVariable_code_ts_def)
  from hit show "requests_in_turn libVar os st = (replicate (length os) (Some cached), st)"
    by (rule requests_in_turn_hit)
next
  assume "importedVariablesCache st (lib_key libVar) = None"
  then show "requests_in_turn libVar os st =
        (replicate (length (takeWhile isl os)) None
           @ replicate (length (dropWhile isl os)) (Some (projr (hd (dropWhile isl os)))),
         st\<lparr>loads := loads st + min (Suc (length (takeWhile isl os))) (length os),
            console := console st @ map projl (takeWhile isl os),
            importedVariablesCache :=
              (case dropWhile isl os of
                 [] \<Rightarrow> importedVariablesCache st
               | loaded # later \<Rightarrow> (importedVariablesCache st)(lib_key libVar \<mapsto> projr loaded))\<rparr>)"
    by (rule requests_in_turn_miss)
next
  assume "distinct js \<and> set js \<subseteq> {..<n}"
  then have "import_steps libVar (map Begin [0..<n] @ map (\<lambda>i. Resume i (out i)) js) (fresh_run n)
      = overlapped libVar n out js"
    by (simp add: import_steps_append fresh_run_begun begin_all resume_all)
  then show "import_steps libVar (map Begin [0..<n] @ map (\<lambda>i. Resume i (out i)) js) (fresh_run n)
        = \<lparr>shared =
             \<lparr>importedVariablesCache =
                fold (\<lambda>i cache. case out i of Inr v \<Rightarrow> cache(lib_key libVar \<mapsto> v) | Inl e \<Rightarrow> cache)
                  js Map.empty,
              loads = n,
              console = concat (map (\<lambda>i. case out i of Inl e \<Rightarrow> [e] | Inr v \<Rightarrow> []) js)\<rparr>,
           requests =
             map (\<lambda>i. if i \<in> set js
                       then Returned (case out i of Inr v \<Rightarrow> Some v | Inl e \<Rightarrow> None)
                       else Loading) [0..<n]\<rparr>"
    by (simp only: overlapped_def)
qed

text \<open>
  With \<open>color/primary\<close> cached, two more requests return it without a load even though
  the loader would answer otherwise. On an empty cache, a failed import followed by two
  requests makes two loads in all, the second of which is cached. Of two overlapping
  requests, the second resumed first with its import and the first then with a failure,
  both have invoked the loader, and the one success is in the cache.
\<close>

theorem getImportedVariable_dedup_witness:
  "importedVariablesCache warm_state (lib_key primary) = Some web_var
   \<and> getImportedVariable (import_with_retry demo_host) primary warm_state = (Some web_var, warm_state)
   \<and> requests_in_turn primary [Inr local_var, Inl (Error None ''never asked'')] warm_state
       = ([Some web_var, Some web_var], warm_state)
   \<and> importedVariablesCache empty_state (lib_key primary) = None
   \<and> requests_in_turn primary [Inl (Error (Some 404) ''gone''), Inr web_var, Inr web_var] empty_state
       = ([None, Some web_var, Some web_var],
          \<lparr>importedVariablesCache = [''k1'' \<mapsto> web_var], loads = 2,
           console = [Error (Some 404) ''gone'']\<rparr>)
   \<and> distinct [1, 0::nat] \<and> set [1, 0::nat] \<subseteq> {..<2}
   \<and> import_steps primary
        [Begin 0, Begin 1, Resume 1 (Inr web_var), Resume 0 (Inl (Error (Some 500) ''unavailable''))]
        (fresh_run 2)
       = \<lparr>shared = \<lparr>importedVariablesCache = [''k1'' \<mapsto> web_var], loads = 2,
                    console = [Error (Some 500) ''unavailable'']\<rparr>,
          requests = [Returned None, Returned (Some web_var)]\<rparr>"
proof -
  let ?os = "[Inl (Error (Some 404) ''gone''), Inr web_var, Inr web_var]"
  let ?out = "\<lambda>i::nat. if i = 0 then Inl (Error (Some 500) ''unavailable'') else Inr web_var"
  note t = getImportedVariable_dedup [of warm_state primary web_var "import_with_retry demo_host"
      "[Inr local_var, Inl (Error None ''never asked'')]" "[1, 0]" 2 ?out]
  note u = getImportedVariable_dedup [of empty_state primary web_var "import_with_retry demo_host"
      ?os "[1, 0]" 2 ?out]
  have hit: "importedVariablesCache warm_state (lib_key primary) = Some web_var"
    by (simp add: warm_state_def primary_def)
  have miss: "importedVariablesCache empty_state (lib_key primary) = None"
    by (simp add: empty_state_def)
  have d: "distinct [1, 0::nat]" "set [1, 0::nat] \<subseteq> {..<2}"
    by simp_all
  from t hit have 1: "getImportedVariable (import_with_retry demo_host) primary warm_state = (Some web_var, warm_state)"
    and "requests_in_turn primary [Inr local_var, Inl (Error None ''never asked'')] warm_state
       = (replicate (length [Inr local_var, Inl (Error None ''never asked'')]) (Some web_var), warm_state)"
    by blast+
  then have 2: "requests_in_turn primary [Inr local_var, Inl (Error None ''never asked'')] warm_state
       = ([Some web_var, Some web_var], warm_state)"
    by (simp add: numeral_2_eq_2)
  from u miss have "requests_in_turn primary ?os empty_state =
        (replicate (length (takeWhile isl ?os)) None
           @ replicate (length (dropWhile isl ?os)) (Some (projr (hd (dropWhile isl ?os)))),
         empty_state\<lparr>loads := loads empty_state + min (Suc (length (takeWhile isl ?os))) (length ?os),
            console := console empty_state @ map projl (takeWhile isl ?os),
            importedVariablesCache :=
              (case dropWhile isl ?os of
                 [] \<Rightarrow> importedVariablesCache empty_state
               | loaded # later \<Rightarrow> (importedVariablesCache empty_state)(lib_key primary \<mapsto> projr loaded))\<rparr>)"
    by blast
  then have 3: "requests_in_turn primary ?os empty_state
       = ([None, Some web_var, Some web_var],
          \<lparr>importedVariablesCache = [''k1'' \<mapsto> web_var], loads = 2,
           console = [Error (Some 404) ''gone'']\<rparr>)"
    by (simp add: empty_state_def primary_def numeral_2_eq_2)
  from t d have "import_steps primary (map Begin [0..<2] @ map (\<lambda>i. Resume i (?out i)) [1, 0]) (fresh_run 2)
        = \<lparr>shared =
             \<lparr>importedVariablesCache =
                fold (\<lambda>i cache. case ?out i of Inr v \<Rightarrow> cache(lib_key primary \<mapsto> v) | Inl e \<Rightarrow> cache)
                  [1, 0] Map.empty,
              loads = 2,
              console = concat (map (\<lambda>i. case ?out i of Inl e \<Rightarrow> [e] | Inr v \<Rightarrow> []) [1, 0])\<rparr>,
           requests =
             map (\<lambda>i. if i \<in> set [1, 0]
                       then Returned (case ?out i of Inr v \<Rightarrow> Some v | Inl e \<Rightarrow> None)
                       else Loading) [0..<2]\<rparr>"
    by blast
  then have 4: "import_steps primary
        [Begin 0, Begin 1, Resume 1 (Inr web_var), Resume 0 (Inl (Error (Some 500) ''unavailable''))]
        (fresh_run 2)
       = \<lparr>shared = \<lparr>importedVariablesCache = [''k1'' \<mapsto> web_var], loads = 2,
                    console = [Error (Some 500) ''unavailable'']\<rparr>,
          requests = [Returned None, Returned (Some web_var)]\<rparr>"
    by (simp add: primary_def numeral_2_eq_2 upt_conv_Cons del: import_steps.simps)
  from hit 1 2 miss 3 d 4 show ?thesis by blast
qed

subsection \<open>Callbacks under \<^verbatim>\<open>Promise.all\<close>\<close>

lemma take_turns_append:
  "take_turns h wm wid (xs @ ys) r = take_turns h wm wid ys (take_turns h wm wid xs r)"
  by (induction xs arbitrary: r) simp_all

lemma take_turn_length: "length (entries (take_turn h wm wid i r)) = length (entries r)"
  by (simp add: take_turn_def case_prod_beta)

lemma take_turns_length: "length (entries (take_turns h wm wid ts r)) = length (entries r)"
  by (induction ts arbitrary: r) (simp_all add: take_turn_length)

lemma take_turn_nth:
  "j < length (entries r) \<Longrightarrow>
   entries (take_turn h wm wid i r) ! j =
     (if j = i then fst (resume h wm wid (entries r ! i) (store r)) else entries r ! j)"
  by (simp add: take_turn_def case_prod_beta)

lemma take_turn_store:
  "store (take_turn h wm wid i r) =
     (if i < length (entries r) then snd (resume h wm wid (entries r ! i) (store r)) else store r)"
  by (simp add: take_turn_def case_prod_beta)

lemma take_turn_first_rejection:
  "first_rejection (take_turn h wm wid i r) =
     (if i < length (entries r)
      then (case first_rejection r of
              Some earlier \<Rightarrow> Some earlier
            | None \<Rightarrow> rejection_of (fst (resume h wm wid (entries r ! i) (store r))))
      else first_rejection r)"
  by (simp add: take_turn_def case_prod_beta)

text \<open>
  A property of every entry (by position) and of the import state that every step of a
  callback keeps is kept by every run.
\<close>

lemma take_turn_invariant:
  assumes step: "\<And>i e st. i < n \<Longrightarrow> P i e \<Longrightarrow> S st \<Longrightarrow>
      P i (fst (resume h wm wid e st)) \<and> S (snd (resume h wm wid e st))"
    and "length (entries r) = n" and "\<forall>i<n. P i (entries r ! i)" and "S (store r)"
  shows "(\<forall>i<n. P i (entries (take_turn h wm wid j r) ! i)) \<and> S (store (take_turn h wm wid j r))"
proof (cases "j < n")
  case True
  with assms(2-4) have "P j (fst (resume h wm wid (entries r ! j) (store r)))
      \<and> S (snd (resume h wm wid (entries r ! j) (store r)))"
    by (intro step) simp_all
  with assms(2,3) True show ?thesis
    by (simp add: take_turn_nth take_turn_store)
next
  case False
  with assms(2-4) show ?thesis by (simp add: take_turn_def)
qed

lemma take_turns_invariant:
  assumes step: "\<And>i e st. i < n \<Longrightarrow> P i e \<Longrightarrow> S st \<Longrightarrow>
      P i (fst (resume h wm wid e st)) \<and> S (snd (resume h wm wid e st))"
    and "length (entries r) = n" and "\<forall>i<n. P i (entries r ! i)" and "S (store r)"
  shows "(\<forall>i<n. P i (entries (take_turns h wm wid ts r) ! i)) \<and> S (store (take_turns h wm wid ts r))"
  using assms(2-4)
proof (induction ts arbitrary: r)
  case Nil
  then show ?case by simp
next
  case (Cons j ts)
  from take_turn_invariant [of n P S h wm wid r j, OF step Cons.prems]
  have "(\<forall>i<n. P i (entries (take_turn h wm wid j r) ! i)) \<and> S (store (take_turn h wm wid j r))"
    by blast
  moreover from Cons.prems(1) have "length (entries (take_turn h wm wid j r)) = n"
    by (simp add: take_turn_length)
  ultimately show ?case
    using Cons.IH [of "take_turn h wm wid j r"] by simp
qed

text \<open>
  Every callback settles: it has at most two suspensions before it, and a turn takes it
  past one.
\<close>

fun suspensions_left :: "entry \<Rightarrow> nat" where
  "suspensions_left (AwaitLookup p variableId) = 2"
| "suspensions_left (AwaitImport p libVar) = 1"
| "suspensions_left (Done r) = 0"

lemma resume_progress:
  "suspensions_left (fst (resume h wm wid e st)) \<le> suspensions_left e - 1"
  by (cases e)
     (auto simp: getImportedVariable_settled_def split: sum.splits option.splits)

lemma suspensions_left_bound: "suspensions_left e \<le> Suc (Suc 0)"
  by (cases e) simp_all

lemma settled_iff: "suspensions_left e = 0 \<longleftrightarrow> (\<exists>x. e = Done x)"
  by (cases e) simp_all

lemma round_prefix:
  assumes "\<forall>i<length (entries r). suspensions_left (entries r ! i) \<le> Suc k" and "j \<le> length (entries r)"
  shows "\<forall>i<length (entries r).
           suspensions_left (entries (take_turns h wm wid [0..<j] r) ! i) \<le> (if i < j then k else Suc k)"
  using assms(2)
proof (induction j)
  case 0
  with assms(1) show ?case by simp
next
  case (Suc j)
  let ?r = "take_turns h wm wid [0..<j] r"
  have len: "length (entries ?r) = length (entries r)"
    by (simp add: take_turns_length)
  from Suc have IH: "\<forall>i<length (entries r).
      suspensions_left (entries ?r ! i) \<le> (if i < j then k else Suc k)"
    by simp
  have run: "take_turns h wm wid [0..<Suc j] r = take_turn h wm wid j ?r"
    by (simp add: take_turns_append)
  show ?case
  proof (intro allI impI)
    fix i
    assume i: "i < length (entries r)"
    show "suspensions_left (entries (take_turns h wm wid [0..<Suc j] r) ! i)
        \<le> (if i < Suc j then k else Suc k)"
    proof (cases "i = j")
      case True
      have "suspensions_left (fst (resume h wm wid (entries ?r ! j) (store ?r)))
          \<le> suspensions_left (entries ?r ! j) - 1"
        by (rule resume_progress)
      moreover from IH [rule_format, of j] i True
      have "suspensions_left (entries ?r ! j) \<le> Suc k" by simp
      ultimately show ?thesis
        using i True len unfolding run by (simp add: take_turn_nth)
    next
      case False
      with IH i len show ?thesis
        unfolding run by (auto simp: take_turn_nth)
    qed
  qed
qed

lemma round_progress:
  assumes "\<forall>i<length (entries r). suspensions_left (entries r ! i) \<le> Suc k"
  shows "\<forall>i<length (entries r).
           suspensions_left (entries (take_turns h wm wid [0..<length (entries r)] r) ! i) \<le> k"
  using round_prefix [OF assms, of "length (entries r)" h wm wid] by simp

lemma settle_all_length: "length (entries (settle_all h wm wid schedule r)) = length (entries r)"
  by (simp add: settle_all_def take_turns_length)

lemma settle_all_settled:
  assumes "i < length (entries r)"
  shows "\<exists>x. entries (settle_all h wm wid schedule r) ! i = Done x"
proof -
  let ?n = "length (entries r)"
  let ?r1 = "take_turns h wm wid schedule r"
  let ?r2 = "take_turns h wm wid [0..<?n] ?r1"
  let ?r3 = "take_turns h wm wid [0..<?n] ?r2"
  have l1: "length (entries ?r1) = ?n" and l2: "length (entries ?r2) = ?n"
    by (simp_all add: take_turns_length)
  have "\<forall>i<length (entries ?r1). suspensions_left (entries ?r1 ! i) \<le> Suc 1"
    by (simp add: suspensions_left_bound)
  from round_progress [OF this, of h wm wid]
  have "\<forall>i<length (entries ?r2). suspensions_left (entries ?r2 ! i) \<le> Suc 0"
    by (simp add: l1 l2)
  from round_progress [OF this, of h wm wid]
  have "\<forall>i<?n. suspensions_left (entries ?r3 ! i) \<le> 0"
    by (simp add: l2)
  moreover have "settle_all h wm wid schedule r = ?r3"
    by (simp add: settle_all_def take_turns_append)
  ultimately show ?thesis
    using assms by (simp add: settled_iff)
qed

text \<open>
  The first rejection is recorded exactly when some entry has rejected.
\<close>

lemma rejection_of_resume:
  "rejection_of e = Some x \<Longrightarrow> fst (resume h wm wid e st) = e"
  by (cases e rule: rejection_of.cases) simp_all

lemma take_turn_rejection_recorded:
  assumes "(first_rejection r = None) = (\<forall>e\<in>set (entries r). rejection_of e = None)"
  shows "(first_rejection (take_turn h wm wid i r) = None)
           = (\<forall>e\<in>set (entries (take_turn h wm wid i r)). rejection_of e = None)"
proof (cases "i < length (entries r)")
  case False
  with assms show ?thesis by (simp add: take_turn_def)
next
  case True
  let ?e = "fst (resume h wm wid (entries r ! i) (store r))"
  have es: "entries (take_turn h wm wid i r) = (entries r)[i := ?e]"
    using True by (simp add: take_turn_def case_prod_beta)
  show ?thesis
  proof (cases "first_rejection r")
    case None
    with assms have all: "\<forall>e\<in>set (entries r). rejection_of e = None" by simp
    have "(\<forall>e\<in>set ((entries r)[i := ?e]). rejection_of e = None) = (rejection_of ?e = None)"
    proof
      assume "\<forall>e\<in>set ((entries r)[i := ?e]). rejection_of e = None"
      moreover have "?e \<in> set ((entries r)[i := ?e])"
        using True by (simp add: set_update_memI)
      ultimately show "rejection_of ?e = None" by blast
    next
      assume "rejection_of ?e = None"
      with all show "\<forall>e\<in>set ((entries r)[i := ?e]). rejection_of e = None"
        using set_update_subset_insert [of "entries r" i ?e] by auto
    qed
    with None True show ?thesis
      by (simp add: take_turn_first_rejection es)
  next
    case (Some earlier)
    with assms obtain e where e: "e \<in> set (entries r)" "rejection_of e \<noteq> None" by auto
    then obtain j where j: "j < length (entries r)" "entries r ! j = e"
      by (auto simp: in_set_conv_nth)
    have "(entries r)[i := ?e] ! j = e"
    proof (cases "j = i")
      case True
      with e j rejection_of_resume [of e _ h wm wid "store r"] show ?thesis by auto
    next
      case False
      with j show ?thesis by simp
    qed
    with j have "e \<in> set ((entries r)[i := ?e])"
      by (metis length_list_update nth_mem)
    with e Some True show ?thesis
      by (auto simp: take_turn_first_rejection es)
  qed
qed

lemma take_turns_rejection_recorded:
  assumes "(first_rejection r = None) = (\<forall>e\<in>set (entries r). rejection_of e = None)"
  shows "(first_rejection (take_turns h wm wid ts r) = None)
           = (\<forall>e\<in>set (entries (take_turns h wm wid ts r)). rejection_of e = None)"
  using assms
proof (induction ts arbitrary: r)
  case Nil
  then show ?case by simp
next
  case (Cons i ts)
  from Cons.IH [OF take_turn_rejection_recorded [OF Cons.prems]] show ?case by simp
qed

text \<open>
  The rejection recorded is the rejection of an entry.
\<close>

lemma take_turn_rejection_source:
  assumes "\<forall>x. first_rejection r = Some x \<longrightarrow> Done (Inl x) \<in> set (entries r)"
  shows "\<forall>x. first_rejection (take_turn h wm wid i r) = Some x
           \<longrightarrow> Done (Inl x) \<in> set (entries (take_turn h wm wid i r))"
proof (cases "i < length (entries r)")
  case False
  with assms show ?thesis by (simp add: take_turn_def)
next
  case True
  let ?e = "fst (resume h wm wid (entries r ! i) (store r))"
  have es: "entries (take_turn h wm wid i r) = (entries r)[i := ?e]"
    using True by (simp add: take_turn_def case_prod_beta)
  show ?thesis
  proof (intro allI impI)
    fix x
    assume x: "first_rejection (take_turn h wm wid i r) = Some x"
    show "Done (Inl x) \<in> set (entries (take_turn h wm wid i r))"
    proof (cases "first_rejection r")
      case None
      with x True have "rejection_of ?e = Some x"
        by (simp add: take_turn_first_rejection)
      then have "?e = Done (Inl x)"
        by (cases ?e rule: rejection_of.cases) simp_all
      with True show ?thesis by (simp add: es set_update_memI)
    next
      case (Some earlier)
      with x True have "earlier = x" by (simp add: take_turn_first_rejection)
      with Some assms have "Done (Inl x) \<in> set (entries r)" by simp
      then obtain j where j: "j < length (entries r)" "entries r ! j = Done (Inl x)"
        by (auto simp: in_set_conv_nth)
      have "(entries r)[i := ?e] ! j = Done (Inl x)"
      proof (cases "j = i")
        case True
        with j show ?thesis by simp
      next
        case False
        with j show ?thesis by simp
      qed
      with j show ?thesis
        unfolding es by (metis length_list_update nth_mem)
    qed
  qed
qed

lemma take_turns_rejection_source:
  assumes "\<forall>x. first_rejection r = Some x \<longrightarrow> Done (Inl x) \<in> set (entries r)"
  shows "\<forall>x. first_rejection (take_turns h wm wid ts r) = Some x
           \<longrightarrow> Done (Inl x) \<in> set (entries (take_turns h wm wid ts r))"
  using assms
proof (induction ts arbitrary: r)
  case Nil
  then show ?case by simp
next
  case (Cons i ts)
  from Cons.IH [OF take_turn_rejection_source [OF Cons.prems]] show ?case by simp
qed

subsection \<open>What the callbacks return does not depend on the interleaving\<close>

text \<open>
  While callbacks run, the cache only grows, and only by variables that the import of
  their key yields. So the cache test of a callback may come out differently from one
  interleaving to another, but the variable the callback ends with does not: every
  callback returns what it would have returned had it run alone from the start.
\<close>

definition grown_from :: "host \<Rightarrow> import_state \<Rightarrow> import_state \<Rightarrow> bool" where
  "grown_from h st0 st =
     (\<forall>k. importedVariablesCache st k = importedVariablesCache st0 k
          \<or> (importedVariablesCache st0 k = None
              \<and> (\<exists>v. importedVariablesCache st k = Some v \<and> import_with_retry h k = Inr v)))"

definition tracks ::
  "host \<Rightarrow> (string \<rightharpoonup> library_variable) \<Rightarrow> string option \<Rightarrow> import_state \<Rightarrow> paint \<Rightarrow> entry \<Rightarrow> bool" where
  "tracks h wm wid st0 p e =
     (e = start p \<or> e = Done (fst (rebind h wm wid p st0))
      \<or> (\<exists>libVar. e = AwaitImport p libVar \<and> fst (resume h wm wid (start p) st0) = e))"

lemma grown_from_refl: "grown_from h st st"
  by (simp add: grown_from_def)

lemma start_cases:
  "start p = Done (Inr p)
   \<or> (\<exists>variableId. start p = AwaitLookup p variableId \<and> paint_type p = SOLID
         \<and> boundColorId p = Some variableId \<and> variableId \<noteq> [])"
  by (auto simp: start_def falsy_def split: option.splits)

lemma rebind_settled_at_once: "start p = Done r \<Longrightarrow> rebind h wm wid p st = (r, st)"
  by (auto simp: start_def rebind_def split: if_splits option.splits)

lemma rebind_suspended:
  assumes "start p = AwaitLookup q variableId"
  shows "q = p \<and> rebind h wm wid p st =
     (case retried (getVariableByIdAsync h variableId) of
        Inl e \<Rightarrow> (Inl e, st)
      | Inr None \<Rightarrow> (Inr p, st)
      | Inr (Some v) \<Rightarrow>
          if \<not> falsy wid \<and> isFromWebCollection v wid then (Inr p, st)
          else
            (case wm (var_name v) of
               None \<Rightarrow> (Inr p, st)
             | Some libVar \<Rightarrow>
                 (case getImportedVariable (import_with_retry h) libVar st of
                    (None, st') \<Rightarrow> (Inr p, st')
                  | (Some imported, st') \<Rightarrow> (Inr (setBoundVariableForPaint h p imported), st'))))"
  using assms by (auto simp: start_def rebind_def split: if_splits option.splits)

lemma await_import_facts:
  assumes "fst (resume h wm wid (start p) st0) = AwaitImport q libVar"
  shows "q = p \<and> importedVariablesCache st0 (lib_key libVar) = None
       \<and> fst (rebind h wm wid p st0) =
           (case import_with_retry h (lib_key libVar) of
              Inr v \<Rightarrow> Inr (setBoundVariableForPaint h p v)
            | Inl e \<Rightarrow> Inr p)"
proof -
  from start_cases [of p] assms obtain variableId where s: "start p = AwaitLookup p variableId"
    by auto
  note r = rebind_suspended [OF s, THEN conjunct2, of h wm wid st0]
  from assms [unfolded s] obtain v
    where 1: "retried (getVariableByIdAsync h variableId) = Inr (Some v)"
      and 2: "\<not> (\<not> falsy wid \<and> isFromWebCollection v wid)"
      and 3: "wm (var_name v) = Some libVar"
      and 4: "importedVariablesCache st0 (lib_key libVar) = None"
      and 5: "q = p"
    by (simp split: sum.splits option.splits if_splits)
  have "fst (rebind h wm wid p st0) =
           (case import_with_retry h (lib_key libVar) of
              Inr v \<Rightarrow> Inr (setBoundVariableForPaint h p v)
            | Inl e \<Rightarrow> Inr p)"
    unfolding r
    by (simp add: 1 2 3 4 getImportedVariable_def getImportedVariable_settled_def split: sum.splits)
  with 4 5 show ?thesis by simp
qed

lemma resume_started:
  assumes "grown_from h st0 st"
  shows "resume h wm wid (start p) st = (Done (fst (rebind h wm wid p st0)), st)
       \<or> (\<exists>libVar. resume h wm wid (start p) st = (AwaitImport p libVar, st\<lparr>loads := Suc (loads st)\<rparr>)
             \<and> fst (resume h wm wid (start p) st0) = AwaitImport p libVar)"
proof -
  from start_cases [of p] show ?thesis
  proof
    assume "start p = Done (Inr p)"
    then show ?thesis by (simp add: rebind_settled_at_once)
  next
    assume "\<exists>variableId. start p = AwaitLookup p variableId \<and> paint_type p = SOLID
         \<and> boundColorId p = Some variableId \<and> variableId \<noteq> []"
    then obtain variableId where s: "start p = AwaitLookup p variableId" by blast
    note r = rebind_suspended [OF s, THEN conjunct2, of h wm wid st0]
    show ?thesis
    proof (cases "retried (getVariableByIdAsync h variableId)")
      case (Inl e)
      then show ?thesis by (simp add: s r)
    next
      case (Inr found)
      show ?thesis
      proof (cases found)
        case None
        with Inr show ?thesis by (simp add: s r)
      next
        case (Some v)
        show ?thesis
        proof (cases "\<not> falsy wid \<and> isFromWebCollection v wid")
          case True
          with Inr Some show ?thesis by (simp add: s r)
        next
          case False
          show ?thesis
          proof (cases "wm (var_name v)")
            case None
            with Inr Some show ?thesis by (simp add: s r False)
          next
            case match: (Some libVar)
            from assms have g: "importedVariablesCache st (lib_key libVar)
                  = importedVariablesCache st0 (lib_key libVar)
                \<or> (importedVariablesCache st0 (lib_key libVar) = None
                    \<and> (\<exists>v. importedVariablesCache st (lib_key libVar) = Some v
                          \<and> import_with_retry h (lib_key libVar) = Inr v))"
              by (simp add: grown_from_def)
            show ?thesis
            proof (cases "importedVariablesCache st (lib_key libVar)")
              case None
              with g have "importedVariablesCache st0 (lib_key libVar) = None" by auto
              with None Inr Some match show ?thesis by (simp add: s False)
            next
              case hit: (Some cached)
              from g show ?thesis
              proof
                assume "importedVariablesCache st (lib_key libVar)
                  = importedVariablesCache st0 (lib_key libVar)"
                with hit have "importedVariablesCache st0 (lib_key libVar) = Some cached" by simp
                with hit Inr Some match show ?thesis
                  by (simp add: s r False getImportedVariable_def)
              next
                assume "importedVariablesCache st0 (lib_key libVar) = None
                    \<and> (\<exists>v. importedVariablesCache st (lib_key libVar) = Some v
                          \<and> import_with_retry h (lib_key libVar) = Inr v)"
                with hit have "importedVariablesCache st0 (lib_key libVar) = None"
                  and "import_with_retry h (lib_key libVar) = Inr cached"
                  by simp_all
                with hit Inr Some match show ?thesis
                  by (simp add: s r False getImportedVariable_def getImportedVariable_settled_def)
              qed
            qed
          qed
        qed
      qed
    qed
  qed
qed

lemma resume_importing:
  assumes "grown_from h st0 st" and "fst (resume h wm wid (start p) st0) = AwaitImport p libVar"
  shows "fst (resume h wm wid (AwaitImport p libVar) st) = Done (fst (rebind h wm wid p st0))
       \<and> grown_from h st0 (snd (resume h wm wid (AwaitImport p libVar) st))"
proof -
  from await_import_facts [OF assms(2)]
  have miss: "importedVariablesCache st0 (lib_key libVar) = None"
    and r: "fst (rebind h wm wid p st0) =
           (case import_with_retry h (lib_key libVar) of
              Inr v \<Rightarrow> Inr (setBoundVariableForPaint h p v)
            | Inl e \<Rightarrow> Inr p)"
    by simp_all
  show ?thesis
  proof (cases "import_with_retry h (lib_key libVar)")
    case (Inl e)
    with r assms(1) show ?thesis
      by (simp add: getImportedVariable_settled_def grown_from_def)
  next
    case (Inr v)
    with r assms(1) miss show ?thesis
      by (auto simp: getImportedVariable_settled_def grown_from_def)
  qed
qed

lemma resume_tracks:
  assumes "tracks h wm wid st0 p e" and "grown_from h st0 st"
  shows "tracks h wm wid st0 p (fst (resume h wm wid e st))
       \<and> grown_from h st0 (snd (resume h wm wid e st))"
proof -
  from assms(1) consider "e = start p" | "e = Done (fst (rebind h wm wid p st0))"
    | libVar where "e = AwaitImport p libVar" "fst (resume h wm wid (start p) st0) = e"
    by (auto simp: tracks_def)
  then show ?thesis
  proof cases
    case 1
    from resume_started [OF assms(2), of wm wid p] show ?thesis
    proof
      assume "resume h wm wid (start p) st = (Done (fst (rebind h wm wid p st0)), st)"
      with 1 assms(2) show ?thesis by (simp add: tracks_def)
    next
      assume "\<exists>libVar. resume h wm wid (start p) st = (AwaitImport p libVar, st\<lparr>loads := Suc (loads st)\<rparr>)
             \<and> fst (resume h wm wid (start p) st0) = AwaitImport p libVar"
      then obtain libVar
        where "resume h wm wid (start p) st = (AwaitImport p libVar, st\<lparr>loads := Suc (loads st)\<rparr>)"
          and "fst (resume h wm wid (start p) st0) = AwaitImport p libVar"
        by blast
      with 1 assms(2) show ?thesis by (simp add: tracks_def grown_from_def)
    qed
  next
    case 2
    with assms(2) show ?thesis by (simp add: tracks_def)
  next
    case 3
    from resume_importing [OF assms(2), of wm wid p libVar] 3 show ?thesis
      by (simp add: tracks_def)
  qed
qed

lemma tracks_settled:
  assumes "tracks h wm wid st0 p (Done x)"
  shows "x = fst (rebind h wm wid p st0)"
proof -
  from assms have "start p = Done x \<or> x = fst (rebind h wm wid p st0)"
    by (auto simp: tracks_def)
  then show ?thesis
    using rebind_settled_at_once [of p x h wm wid st0] by auto
qed

text \<open>
  The entries of a run that began with the callbacks of \<open>ps\<close> on the state \<open>st\<close>, when all
  have settled.
\<close>

lemma settle_all_entries:
  "entries (settle_all h wm wid schedule \<lparr>entries = map start ps, store = st, first_rejection = None\<rparr>)
     = map (\<lambda>p. Done (fst (rebind h wm wid p st))) ps"
proof -
  let ?r = "\<lparr>entries = map start ps, store = st, first_rejection = None\<rparr>"
  let ?turns = "schedule @ [0..<length (entries ?r)] @ [0..<length (entries ?r)]"
  have inv: "(\<forall>i<length ps. tracks h wm wid st (ps ! i) (entries (take_turns h wm wid ?turns ?r) ! i))
      \<and> grown_from h st (store (take_turns h wm wid ?turns ?r))"
  proof (rule take_turns_invariant)
    fix i e st'
    assume "tracks h wm wid st (ps ! i) e" and "grown_from h st st'"
    then show "tracks h wm wid st (ps ! i) (fst (resume h wm wid e st'))
        \<and> grown_from h st (snd (resume h wm wid e st'))"
      by (rule resume_tracks)
  next
    show "length (entries ?r) = length ps" by simp
    show "\<forall>i<length ps. tracks h wm wid st (ps ! i) (entries ?r ! i)"
      by (simp add: tracks_def)
    show "grown_from h st (store ?r)" by (simp add: grown_from_refl)
  qed
  show ?thesis
  proof (rule nth_equalityI)
    show "length (entries (settle_all h wm wid schedule ?r))
        = length (map (\<lambda>p. Done (fst (rebind h wm wid p st))) ps)"
      by (simp add: settle_all_length)
  next
    fix i
    assume "i < length (entries (settle_all h wm wid schedule ?r))"
    then have i: "i < length ps" by (simp add: settle_all_length)
    then have "i < length (entries ?r)" by simp
    from settle_all_settled [OF this, of h wm wid schedule]
    obtain x where x: "entries (settle_all h wm wid schedule ?r) ! i = Done x" by blast
    from inv i have "tracks h wm wid st (ps ! i) (entries (settle_all h wm wid schedule ?r) ! i)"
      by (simp add: settle_all_def)
    with x have "tracks h wm wid st (ps ! i) (Done x)" by simp
    from tracks_settled [OF this] x i
    show "entries (settle_all h wm wid schedule ?r) ! i
        = map (\<lambda>p. Done (fst (rebind h wm wid p st))) ps ! i"
      by simp
  qed
qed

lemma rebind_rejects: "isl (fst (rebind h wm wid p st)) = lookup_rejects h p"
  by (auto simp: rebind_def lookup_rejects_def bound_solid_def getImportedVariable_def
        getImportedVariable_settled_def
      split: option.splits sum.splits)

text \<open>
  \<^verbatim>\<open>Promise.all\<close> rejects exactly when a lookup fails, and then with the failure of a
  lookup.
\<close>

lemma settle_all_first_rejection:
  "(first_rejection (settle_all h wm wid schedule
       \<lparr>entries = map start ps, store = st, first_rejection = None\<rparr>) = None)
     = (\<forall>p\<in>set ps. \<not> lookup_rejects h p)"
proof -
  let ?r = "\<lparr>entries = map start ps, store = st, first_rejection = None\<rparr>"
  have "rejection_of (start p) = None" for p
    by (simp add: start_def split: option.splits)
  then have "(first_rejection ?r = None) = (\<forall>e\<in>set (entries ?r). rejection_of e = None)"
    by simp
  from take_turns_rejection_recorded [OF this, of h wm wid]
  have "(first_rejection (settle_all h wm wid schedule ?r) = None)
      = (\<forall>e\<in>set (entries (settle_all h wm wid schedule ?r)). rejection_of e = None)"
    by (simp add: settle_all_def)
  also have "\<dots> = (\<forall>p\<in>set ps. rejection_of (Done (fst (rebind h wm wid p st))) = None)"
    by (simp add: settle_all_entries)
  also have "\<dots> = (\<forall>p\<in>set ps. \<not> lookup_rejects h p)"
  proof -
    have "(rejection_of (Done x) = None) = (\<not> isl x)" for x :: "error + paint"
      by (cases x) simp_all
    then show ?thesis by (simp add: rebind_rejects)
  qed
  finally show ?thesis .
qed

lemma settle_all_rejection_source:
  assumes "first_rejection (settle_all h wm wid schedule
       \<lparr>entries = map start ps, store = st, first_rejection = None\<rparr>) = Some x"
  shows "\<exists>p\<in>set ps. fst (rebind h wm wid p st) = Inl x"
proof -
  let ?r = "\<lparr>entries = map start ps, store = st, first_rejection = None\<rparr>"
  have "\<forall>x. first_rejection ?r = Some x \<longrightarrow> Done (Inl x) \<in> set (entries ?r)" by simp
  from take_turns_rejection_source [OF this, of h wm wid] assms
  have "Done (Inl x) \<in> set (entries (settle_all h wm wid schedule ?r))"
    by (simp add: settle_all_def)
  then show ?thesis by (auto simp: settle_all_entries)
qed

text \<open>
  What \<^verbatim>\<open>processPaints\<close> compares with the paints it read, and what a paint is rebound
  to: the paint its callback returns.
\<close>

definition rebound ::
  "host \<Rightarrow> (string \<rightharpoonup> library_variable) \<Rightarrow> string option \<Rightarrow> import_state \<Rightarrow> paint \<Rightarrow> paint" where
  "rebound h wm wid st p = (case fst (rebind h wm wid p st) of Inr updated \<Rightarrow> updated | Inl e \<Rightarrow> p)"

lemma all_values_settled:
  "all_values (map (\<lambda>p. Done (fst (rebind h wm wid p st))) ps)
     = (if \<exists>p\<in>set ps. lookup_rejects h p then None else Some (map (rebound h wm wid st) ps))"
proof (induction ps)
  case Nil
  show ?case by simp
next
  case (Cons p ps)
  show ?case
  proof (cases "fst (rebind h wm wid p st)")
    case (Inl e)
    with rebind_rejects [of h wm wid p st] show ?thesis by simp
  next
    case (Inr updated)
    with rebind_rejects [of h wm wid p st] Cons show ?thesis by (simp add: rebound_def)
  qed
qed

subsection \<open>The paints of a node after its callbacks have settled\<close>

definition paints_of :: "paint_slot \<Rightarrow> node \<Rightarrow> paint list" where
  "paints_of slot n = (case read_slot slot n of None \<Rightarrow> [] | Some paints \<Rightarrow> paints)"

lemma processPaints_begin_paints:
  "processPaints_begin (read_slot slot n) = map start (paints_of slot n)"
  by (simp add: processPaints_begin_def paints_of_def split: option.splits)

lemma processPaints_begin_fills: "processPaints_begin (fills n) = map start (paints_of Fills n)"
  using processPaints_begin_paints [of Fills n] by simp

lemma processPaints_begin_strokes: "processPaints_begin (strokes n) = map start (paints_of Strokes n)"
  using processPaints_begin_paints [of Strokes n] by simp

lemma processPaints_end_modes:
  "explicitVariableModes (processPaints_end slot paints es n) = explicitVariableModes n"
  by (cases slot) (simp_all add: processPaints_end_def Let_def split: option.splits)

lemma processPaints_end_ancestors: "ancestors (processPaints_end slot paints es n) = ancestors n"
  by (cases slot) (simp_all add: processPaints_end_def Let_def split: option.splits)

lemma processPaints_end_other:
  "slot' \<noteq> slot \<Longrightarrow> read_slot slot' (processPaints_end slot paints es n) = read_slot slot' n"
  by (cases slot; cases slot') (simp_all add: processPaints_end_def Let_def split: option.splits)

lemma processPaints_end_slot:
  "read_slot slot (processPaints_end slot (read_slot slot n) es n) =
     (case read_slot slot n of
        None \<Rightarrow> None
      | Some paints \<Rightarrow> Some (case all_values es of None \<Rightarrow> paints | Some updatedPaints \<Rightarrow> updatedPaints))"
  by (cases slot) (auto simp: processPaints_end_def Let_def split: option.splits)

lemma processPaints_end_settled:
  "read_slot slot
     (processPaints_end slot (read_slot slot n)
        (map (\<lambda>p. Done (fst (rebind h wm wid p st))) (paints_of slot n)) n) =
     (case read_slot slot n of
        None \<Rightarrow> None
      | Some paints \<Rightarrow>
          Some (if \<exists>p\<in>set paints. lookup_rejects h p then paints
                else map (rebound h wm wid st) paints))"
  by (simp add: processPaints_end_slot all_values_settled paints_of_def split: option.splits)

text \<open>
  The node that \<^verbatim>\<open>processSingleNode\<close> has when its paint callbacks have settled, before
  any mode call.
\<close>

definition painted ::
  "host \<Rightarrow> (string \<rightharpoonup> library_variable) \<Rightarrow> string option \<Rightarrow> import_state \<Rightarrow> node \<Rightarrow> node" where
  "painted h wm wid st n =
     processPaints_end Strokes (read_slot Strokes n)
       (map (\<lambda>p. Done (fst (rebind h wm wid p st))) (paints_of Strokes n))
       (processPaints_end Fills (read_slot Fills n)
          (map (\<lambda>p. Done (fst (rebind h wm wid p st))) (paints_of Fills n)) n)"

lemma painted_slot:
  "read_slot slot (painted h wm wid st n) =
     (case read_slot slot n of
        None \<Rightarrow> None
      | Some paints \<Rightarrow>
          Some (if \<exists>p\<in>set paints. lookup_rejects h p then paints
                else map (rebound h wm wid st) paints))"
proof (cases slot)
  case Fills
  have "read_slot Fills (painted h wm wid st n)
      = read_slot Fills
          (processPaints_end Fills (read_slot Fills n)
             (map (\<lambda>p. Done (fst (rebind h wm wid p st))) (paints_of Fills n)) n)"
    unfolding painted_def by (rule processPaints_end_other) simp
  with Fills show ?thesis by (simp only: processPaints_end_settled)
next
  case Strokes
  let ?n = "processPaints_end Fills (read_slot Fills n)
      (map (\<lambda>p. Done (fst (rebind h wm wid p st))) (paints_of Fills n)) n"
  have s: "read_slot Strokes ?n = read_slot Strokes n"
    by (rule processPaints_end_other) simp
  then have "paints_of Strokes ?n = paints_of Strokes n"
    by (simp only: paints_of_def)
  with processPaints_end_settled [of Strokes ?n h wm wid st] s Strokes show ?thesis
    by (simp only: painted_def)
qed

lemma painted_modes: "explicitVariableModes (painted h wm wid st n) = explicitVariableModes n"
  by (simp add: painted_def processPaints_end_modes)

lemma processSingleNode_settled:
  "processPaints_end Strokes (strokes n)
     (drop (length (processPaints_begin (fills n)))
        (entries (settle_all h wm wid schedule
           \<lparr>entries = processPaints_begin (fills n) @ processPaints_begin (strokes n),
            store = st, first_rejection = None\<rparr>)))
     (processPaints_end Fills (fills n)
        (take (length (processPaints_begin (fills n)))
           (entries (settle_all h wm wid schedule
              \<lparr>entries = processPaints_begin (fills n) @ processPaints_begin (strokes n),
               store = st, first_rejection = None\<rparr>)))
        n)
   = painted h wm wid st n"
proof -
  have "processPaints_begin (fills n) @ processPaints_begin (strokes n)
      = map start (paints_of Fills n @ paints_of Strokes n)"
    by (simp add: processPaints_begin_fills processPaints_begin_strokes)
  then have "entries (settle_all h wm wid schedule
           \<lparr>entries = processPaints_begin (fills n) @ processPaints_begin (strokes n),
            store = st, first_rejection = None\<rparr>)
      = map (\<lambda>p. Done (fst (rebind h wm wid p st))) (paints_of Fills n @ paints_of Strokes n)"
    by (simp only: settle_all_entries)
  then show ?thesis
    by (simp add: processPaints_begin_fills painted_def)
qed

lemma processSingleNode_paints:
  "node_after (processSingleNode h wm wc n st schedule) =
     (let n' = painted h wm (map_option coll_id wc) st n
      in if rejected (processSingleNode h wm wc n st schedule) = None \<and> \<not> isNestedInInstance n
         then after_calls (mode_calls (processSingleNode h wm wc n st schedule)) n'
         else n')"
  by (simp add: processSingleNode_def Let_def processSingleNode_settled
        split: option.splits prod.splits)

lemma processSingleNode_rejected:
  "(rejected (processSingleNode h wm wc n st schedule) = None)
     = (\<forall>p\<in>set (paints_of Fills n @ paints_of Strokes n). \<not> lookup_rejects h p)"
proof -
  have "(rejected (processSingleNode h wm wc n st schedule) = None)
      = (first_rejection (settle_all h wm (map_option coll_id wc) schedule
           \<lparr>entries = map start (paints_of Fills n @ paints_of Strokes n), store = st,
            first_rejection = None\<rparr>) = None)"
    by (simp add: processSingleNode_def Let_def processPaints_begin_fills processPaints_begin_strokes
          split: option.splits prod.splits)
  then show ?thesis by (simp only: settle_all_first_rejection)
qed

lemma isNestedInInstance_loop_iff: "isNestedInInstance_loop up = (INSTANCE \<in> set up)"
  by (induction up) auto

lemma isNestedInInstance_iff: "isNestedInInstance n = (INSTANCE \<in> set (ancestors n))"
  by (simp add: isNestedInInstance_def isNestedInInstance_loop_iff)

lemma rebound_bound:
  assumes "paint_type p = SOLID" and "boundColorId p = Some variableId" and "variableId \<noteq> []"
    and "retried (getVariableByIdAsync h variableId) = Inr (Some v)"
    and "wid \<noteq> Some (variableCollectionId v)"
    and "wm (var_name v) = Some libVar"
    and "importedVariablesCache st (lib_key libVar) = Some imported
         \<or> importedVariablesCache st (lib_key libVar) = None
           \<and> import_with_retry h (lib_key libVar) = Inr imported"
  shows "rebound h wm wid st p = setBoundVariableForPaint h p imported"
proof -
  from assms(5) have skip: "isFromWebCollection v wid = False"
    by (auto simp: isFromWebCollection_def)
  from assms(7) have g: "fst (getImportedVariable (import_with_retry h) libVar st) = Some imported"
    by (auto simp: getImportedVariable_def getImportedVariable_settled_def)
  have "fst (rebind h wm wid p st) = Inr (setBoundVariableForPaint h p imported)"
    using assms(1-4,6)
    by (simp add: rebind_def falsy_def skip case_prod_beta g)
  then show ?thesis by (simp add: rebound_def)
qed

subsection \<open>Paint rebinding on nodes that are already migrated\<close>

lemma rebind_unbound: "\<not> bound_solid p \<Longrightarrow> rebind h wm wid p st = (Inr p, st)"
  by (auto simp: rebind_def bound_solid_def)

lemma rebind_in_target:
  "cid \<noteq> [] \<Longrightarrow> resolves_into h cid p \<Longrightarrow> rebind h wm (Some cid) p st = (Inr p, st)"
  by (auto simp: rebind_def resolves_into_def falsy_def isFromWebCollection_def
           split: option.splits sum.splits)

lemma rebind_migrated:
  assumes "cid \<noteq> []" and "bound_solid p \<longrightarrow> resolves_into h cid p"
  shows "rebind h wm (Some cid) p st = (Inr p, st)"
proof (cases "bound_solid p")
  case True
  with assms show ?thesis by (simp add: rebind_in_target)
next
  case False
  then show ?thesis by (rule rebind_unbound)
qed

text \<open>
  Callbacks none of which would reach an import when run alone reach none under any
  interleaving, and the import state stays what it was.
\<close>

lemma await_import_loads:
  assumes "fst (resume h wm wid (start p) st) = AwaitImport q libVar"
  shows "loads (snd (rebind h wm wid p st)) = Suc (loads st)"
proof -
  from start_cases [of p] assms obtain variableId where s: "start p = AwaitLookup p variableId"
    by auto
  note r = rebind_suspended [OF s, THEN conjunct2, of h wm wid st]
  from assms [unfolded s] obtain v
    where 1: "retried (getVariableByIdAsync h variableId) = Inr (Some v)"
      and 2: "\<not> (\<not> falsy wid \<and> isFromWebCollection v wid)"
      and 3: "wm (var_name v) = Some libVar"
      and 4: "importedVariablesCache st (lib_key libVar) = None"
    by (simp split: sum.splits option.splits if_splits)
  show ?thesis
    unfolding r
    by (simp add: 1 2 3 4 getImportedVariable_def getImportedVariable_settled_def split: sum.splits)
qed

lemma settle_all_quiet:
  assumes "\<forall>p\<in>set ps. snd (rebind h wm wid p st) = st"
  shows "store (settle_all h wm wid schedule
           \<lparr>entries = map start ps, store = st, first_rejection = None\<rparr>) = st"
proof -
  let ?r = "\<lparr>entries = map start ps, store = st, first_rejection = None\<rparr>"
  let ?turns = "schedule @ [0..<length (entries ?r)] @ [0..<length (entries ?r)]"
  have "(\<forall>i<length ps. (\<lambda>i e. e = start (ps ! i) \<or> (\<exists>x. e = Done x)) i
            (entries (take_turns h wm wid ?turns ?r) ! i))
      \<and> (\<lambda>st'. st' = st) (store (take_turns h wm wid ?turns ?r))"
  proof (rule take_turns_invariant)
    fix i e st'
    assume i: "i < length ps" and e: "e = start (ps ! i) \<or> (\<exists>x. e = Done x)" and st': "st' = st"
    from e show "(fst (resume h wm wid e st') = start (ps ! i) \<or> (\<exists>x. fst (resume h wm wid e st') = Done x))
        \<and> snd (resume h wm wid e st') = st"
    proof
      assume "\<exists>x. e = Done x"
      with st' show ?thesis by auto
    next
      assume s: "e = start (ps ! i)"
      from i assms have quiet: "snd (rebind h wm wid (ps ! i) st) = st" by simp
      from resume_started [OF grown_from_refl, of h wm wid "ps ! i" st] show ?thesis
      proof
        assume "resume h wm wid (start (ps ! i)) st
          = (Done (fst (rebind h wm wid (ps ! i) st)), st)"
        with s st' show ?thesis by simp
      next
        assume "\<exists>libVar. resume h wm wid (start (ps ! i)) st
              = (AwaitImport (ps ! i) libVar, st\<lparr>loads := Suc (loads st)\<rparr>)
            \<and> fst (resume h wm wid (start (ps ! i)) st) = AwaitImport (ps ! i) libVar"
        then obtain libVar where "fst (resume h wm wid (start (ps ! i)) st) = AwaitImport (ps ! i) libVar"
          by blast
        from await_import_loads [OF this] quiet show ?thesis by simp
      qed
    qed
  next
    show "length (entries ?r) = length ps" by simp
    show "\<forall>i<length ps. entries ?r ! i = start (ps ! i) \<or> (\<exists>x. entries ?r ! i = Done x)" by simp
    show "store ?r = st" by simp
  qed
  then show ?thesis by (simp add: settle_all_def)
qed

lemma processPaints_in_target:
  assumes "cid \<noteq> []"
    and "\<forall>ps. read_slot slot n = Some ps \<longrightarrow> (\<forall>p\<in>set ps. bound_solid p \<longrightarrow> resolves_into h cid p)"
  shows "processPaints h slot wm (Some cid) n st schedule = (None, n, st)"
proof -
  let ?ps = "paints_of slot n"
  let ?r = "settle_all h wm (Some cid) schedule
              \<lparr>entries = map start ?ps, store = st, first_rejection = None\<rparr>"
  have same: "rebind h wm (Some cid) p st = (Inr p, st)" if "p \<in> set ?ps" for p
  proof (rule rebind_migrated [OF assms(1)])
    from that assms(2) show "bound_solid p \<longrightarrow> resolves_into h cid p"
      by (cases "read_slot slot n") (auto simp: paints_of_def)
  qed
  have es: "entries ?r = map (\<lambda>p. Done (Inr p)) ?ps"
    using same by (simp add: settle_all_entries)
  have "\<forall>p\<in>set ?ps. \<not> lookup_rejects h p"
  proof
    fix p
    assume "p \<in> set ?ps"
    from same [OF this] rebind_rejects [of h wm "Some cid" p st]
    show "\<not> lookup_rejects h p" by simp
  qed
  then have rej: "first_rejection ?r = None"
    by (simp only: settle_all_first_rejection)
  have st: "store ?r = st"
    by (rule settle_all_quiet) (simp add: same)
  have "all_values (map (\<lambda>p. Done (Inr p)) ps) = Some ps" for ps :: "paint list"
    by (induction ps) simp_all
  then have av: "all_values (entries ?r) = Some ?ps"
    by (simp only: es)
  have "processPaints_end slot (read_slot slot n) (entries ?r) n = n"
  proof (cases "read_slot slot n")
    case None
    then show ?thesis by (simp add: processPaints_end_def)
  next
    case (Some ps)
    then have "?ps = ps" by (simp add: paints_of_def)
    with av have "all_values (entries ?r) = Some ps" by simp
    with Some show ?thesis by (simp add: processPaints_end_def)
  qed
  with rej st show ?thesis
    by (simp add: processPaints_def Let_def processPaints_begin_paints)
qed

lemma processSingleNode_in_target:
  assumes "cid \<noteq> []"
    and "\<forall>ps. read_slot slot n = Some ps \<longrightarrow> (\<forall>p\<in>set ps. bound_solid p \<longrightarrow> resolves_into h cid p)"
    and "coll_id web = cid"
  shows "read_slot slot (node_after (processSingleNode h wm (Some web) n st schedule)) = read_slot slot n"
proof -
  have modes: "read_slot slot (after_calls cs m) = read_slot slot m" for cs m
    by (cases slot) (simp_all add: after_calls_def split: option.splits)
  have "read_slot slot (node_after (processSingleNode h wm (Some web) n st schedule))
      = read_slot slot (painted h wm (Some cid) st n)"
    by (simp add: processSingleNode_paints Let_def modes assms(3))
  also have "\<dots> = read_slot slot n"
  proof (cases "read_slot slot n")
    case None
    then show ?thesis by (simp add: painted_slot)
  next
    case (Some ps)
    have "rebound h wm (Some cid) st p = p" if "p \<in> set ps" for p
      using rebind_migrated [OF assms(1), of p h wm st] assms(2) Some that
      by (simp add: rebound_def)
    then have "map (rebound h wm (Some cid) st) ps = ps"
      by (simp add: map_idI)
    with Some show ?thesis by (simp add: painted_slot)
  qed
  finally show ?thesis .
qed

text \<open>
  Claim C4. Let the target collection have the id \<open>cid\<close>, a non-empty string as every
  id of the host is (the guard \<^verbatim>\<open>webCollectionId && ...\<close> treats an empty string like
  \<^verbatim>\<open>null\<close>), and let every solid paint of a slot that has a bound variable resolve to a
  variable of that collection. Then \<^verbatim>\<open>processPaints\<close>, in whatever order its callbacks
  are resumed, leaves the node as it is, every paint entry included, invokes no import,
  and does not fail; run again on its own result, it gives the same node once more. The
  slot also comes out of \<^verbatim>\<open>processSingleNode\<close> as it went in, whatever the callbacks of
  the other slot do in between.
\<close>

theorem processPaints_idempotent:
  assumes "cid \<noteq> []"
    and "\<forall>ps. read_slot slot n = Some ps \<longrightarrow> (\<forall>p\<in>set ps. bound_solid p \<longrightarrow> resolves_into h cid p)"
  shows "processPaints h slot wm (Some cid) n st schedule = (None, n, st)
       \<and> (case processPaints h slot wm (Some cid) n st schedule of
            (e, n', st') \<Rightarrow> processPaints h slot wm (Some cid) n' st' again = (None, n, st))
       \<and> read_slot slot (node_after (processSingleNode h wm (Some \<lparr>coll_id = cid\<rparr>) n st schedule))
           = read_slot slot n"
  using processPaints_in_target [OF assms]
    processSingleNode_in_target [OF assms, of "\<lparr>coll_id = cid\<rparr>" wm st schedule]
  by simp

text \<open>
  The fill of \<open>themed_node\<close> is bound to the variable of the target collection: the node
  comes back unchanged, here with the callback resumed before the closing rounds.
\<close>

theorem processPaints_idempotent_witness:
  "''VariableCollectionId:1:0'' \<noteq> []
   \<and> read_slot Fills themed_node = Some [web_fill]
   \<and> bound_solid web_fill
   \<and> resolves_into demo_host ''VariableCollectionId:1:0'' web_fill
   \<and> processPaints demo_host Fills catalog (Some ''VariableCollectionId:1:0'') themed_node empty_state [0]
       = (None, themed_node, empty_state)
   \<and> fills (node_after (processSingleNode demo_host catalog (Some web_collection) themed_node
         empty_state [0]))
       = Some [web_fill]"
proof -
  have a: "''VariableCollectionId:1:0'' \<noteq> []" by simp
  have r: "read_slot Fills themed_node = Some [web_fill]"
    by (simp add: themed_node_def)
  have b: "bound_solid web_fill"
    by (simp add: bound_solid_def web_fill_def falsy_def)
  have c: "resolves_into demo_host ''VariableCollectionId:1:0'' web_fill"
    by (simp add: resolves_into_def web_fill_def find_web_var) (simp add: web_var_def)
  from r c have "\<forall>ps. read_slot Fills themed_node = Some ps \<longrightarrow>
      (\<forall>p\<in>set ps. bound_solid p \<longrightarrow> resolves_into demo_host ''VariableCollectionId:1:0'' p)"
    by simp
  note t = processPaints_idempotent [OF a this, of catalog empty_state "[0]" "[]"]
  from t have 1: "processPaints demo_host Fills catalog (Some ''VariableCollectionId:1:0'')
      themed_node empty_state [0] = (None, themed_node, empty_state)"
    by blast
  from t r have 2: "fills (node_after (processSingleNode demo_host catalog (Some web_collection)
      themed_node empty_state [0])) = Some [web_fill]"
    by (simp add: web_collection_def)
  from a r b c 1 2 show ?thesis by blast
qed

subsection \<open>Interleavings\<close>

text \<open>
  Two fills bound to the same local variable, a node whose fill and stroke are, and a
  host on which two lookups fail.
\<close>

definition twin_node :: node where
  "twin_node =
     \<lparr>node_type = RECTANGLE, ancestors = [PAGE, DOCUMENT],
      fills = Some [local_fill, local_fill], strokes = None, explicitVariableModes = None\<rparr>"

definition outlined_node :: node where
  "outlined_node =
     \<lparr>node_type = RECTANGLE, ancestors = [PAGE, DOCUMENT],
      fills = Some [local_fill], strokes = Some [local_fill], explicitVariableModes = None\<rparr>"

definition failing_host :: host where
  "failing_host =
     demo_host\<lparr>getVariableByIdAsync := (\<lambda>i k.
        if i = ''VariableID:9:1'' then Inl (Error (Some 500) ''first'')
        else if i = ''VariableID:9:2'' then Inl (Error (Some 500) ''second'')
        else Inr None)\<rparr>"

definition unlucky_node :: node where
  "unlucky_node =
     \<lparr>node_type = RECTANGLE, ancestors = [PAGE, DOCUMENT],
      fills = Some [\<lparr>paint_type = SOLID, boundColorId = Some ''VariableID:9:1'', appearance = ''#111111''\<rparr>,
                    \<lparr>paint_type = SOLID, boundColorId = Some ''VariableID:9:2'', appearance = ''#222222''\<rparr>],
      strokes = None, explicitVariableModes = None\<rparr>"

lemmas run_simps =
  processPaints_def processSingleNode_def processPaints_begin_def processPaints_end_def
  settle_all_def take_turn_def start_def falsy_def isFromWebCollection_def
  getImportedVariable_settled_def Let_def upt_rec

text \<open>
  When both lookups settle before either import, each callback misses the cache and
  imports; when the first callback has finished before the second is resumed, the
  second finds the variable cached. The paints come out the same.
\<close>

lemma two_fills_overlapping:
  "processPaints demo_host Fills catalog (Some ''VariableCollectionId:1:0'') twin_node empty_state
       [0, 1, 0, 1]
     = (None, twin_node\<lparr>fills := Some [web_fill, web_fill]\<rparr>,
        \<lparr>importedVariablesCache = [''k1'' \<mapsto> web_var], loads = 2, console = []\<rparr>)"
  by (simp add: run_simps twin_node_def local_fill_def find_local_var local_var_def catalog_def
        primary_def import_primary empty_state_def web_fill_def)
     (simp add: demo_host_def web_var_def)

lemma two_fills_in_turn:
  "processPaints demo_host Fills catalog (Some ''VariableCollectionId:1:0'') twin_node empty_state
       [0, 0, 1, 1]
     = (None, twin_node\<lparr>fills := Some [web_fill, web_fill]\<rparr>,
        \<lparr>importedVariablesCache = [''k1'' \<mapsto> web_var], loads = 1, console = []\<rparr>)"
  by (simp add: run_simps twin_node_def local_fill_def find_local_var local_var_def catalog_def
        primary_def import_primary empty_state_def web_fill_def)
     (simp add: demo_host_def web_var_def)

text \<open>
  The fill and the stroke of one node, both calls of \<^verbatim>\<open>processPaints\<close> started before
  anything settles: two imports of the one key.
\<close>

lemma fill_and_stroke_overlapping:
  "state_after (processSingleNode demo_host catalog (Some web_collection) outlined_node empty_state [])
     = \<lparr>importedVariablesCache = [''k1'' \<mapsto> web_var], loads = 2, console = []\<rparr>
   \<and> fills (node_after (processSingleNode demo_host catalog (Some web_collection) outlined_node
        empty_state [])) = Some [web_fill]
   \<and> strokes (node_after (processSingleNode demo_host catalog (Some web_collection) outlined_node
        empty_state [])) = Some [web_fill]"
  by (simp add: run_simps outlined_node_def local_fill_def find_local_var local_var_def catalog_def
        primary_def import_primary empty_state_def web_fill_def web_collection_def
        isNestedInInstance_def reassignVariableModes_def after_calls_def)
     (simp add: demo_host_def web_var_def)

text \<open>
  \<^verbatim>\<open>Promise.all\<close> rejects with the failure that comes first in time, not the one of the
  first entry.
\<close>

lemma first_rejection_in_time:
  "fst (processPaints failing_host Fills catalog None unlucky_node empty_state [1, 0])
     = Some (Error (Some 500) ''second'')
   \<and> fst (processPaints failing_host Fills catalog None unlucky_node empty_state [0, 1])
     = Some (Error (Some 500) ''first'')"
  by (simp add: run_simps unlucky_node_def retried_eval failing_host_def rate_limited_def)

subsection \<open>Nodes nested in an instance\<close>

text \<open>
  Claim C6. For a node with an ancestor of type \<^verbatim>\<open>INSTANCE\<close>, \<^verbatim>\<open>processSingleNode\<close>, in
  whatever order the callbacks of its paints are resumed, makes no mode call and leaves
  the node's \<^verbatim>\<open>explicitVariableModes\<close> what it was, and it rebinds the paints of both
  slots: a slot with no failing lookup ends with every paint replaced by what its
  callback returns, run alone from the state the node was started in (a slot with a
  failing lookup is left as it is). In particular, in such a slot a solid paint bound to
  a variable that the host resolves, that is not of the target collection, and whose
  name is in the catalog, ends as \<^verbatim>\<open>setBoundVariableForPaint\<close> of the paint and the
  catalog variable's import: the cached one if the key was cached at the start, what
  the import yields otherwise.
\<close>

theorem processSingleNode_nested_in_instance:
  assumes "INSTANCE \<in> set (ancestors n)"
  shows "mode_calls (processSingleNode h wm wc n st schedule) = []
       \<and> explicitVariableModes (node_after (processSingleNode h wm wc n st schedule))
           = explicitVariableModes n
       \<and> read_slot slot (node_after (processSingleNode h wm wc n st schedule)) =
           (case read_slot slot n of
              None \<Rightarrow> None
            | Some ps \<Rightarrow>
                Some (if \<exists>p\<in>set ps. lookup_rejects h p then ps
                      else map (rebound h wm (map_option coll_id wc) st) ps))
       \<and> (read_slot slot n = Some paints \<and> (\<forall>p\<in>set paints. \<not> lookup_rejects h p)
            \<and> i < length paints
            \<and> paint_type (paints ! i) = SOLID \<and> boundColorId (paints ! i) = Some variableId
            \<and> variableId \<noteq> []
            \<and> retried (getVariableByIdAsync h variableId) = Inr (Some v)
            \<and> map_option coll_id wc \<noteq> Some (variableCollectionId v)
            \<and> wm (var_name v) = Some libVar
            \<and> (importedVariablesCache st (lib_key libVar) = Some imported
                \<or> importedVariablesCache st (lib_key libVar) = None
                  \<and> import_with_retry h (lib_key libVar) = Inr imported)
          \<longrightarrow> (\<exists>updated.
                 read_slot slot (node_after (processSingleNode h wm wc n st schedule)) = Some updated
                 \<and> length updated = length paints
                 \<and> updated ! i = setBoundVariableForPaint h (paints ! i) imported))"
proof -
  let ?run = "processSingleNode h wm wc n st schedule"
  let ?wid = "map_option coll_id wc"
  from assms have nested: "isNestedInInstance n"
    by (simp add: isNestedInInstance_iff)
  then have calls: "mode_calls ?run = []"
    by (simp add: processSingleNode_def Let_def split: option.splits)
  from nested have after: "node_after ?run = painted h wm ?wid st n"
    by (simp add: processSingleNode_paints Let_def)
  then have modes: "explicitVariableModes (node_after ?run) = explicitVariableModes n"
    by (simp add: painted_modes)
  have slot: "read_slot slot (node_after ?run) =
           (case read_slot slot n of
              None \<Rightarrow> None
            | Some ps \<Rightarrow>
                Some (if \<exists>p\<in>set ps. lookup_rejects h p then ps
                      else map (rebound h wm ?wid st) ps))"
    by (simp only: after painted_slot)
  have one: "\<exists>updated. read_slot slot (node_after ?run) = Some updated
                 \<and> length updated = length paints
                 \<and> updated ! i = setBoundVariableForPaint h (paints ! i) imported"
    if "read_slot slot n = Some paints" and "\<forall>p\<in>set paints. \<not> lookup_rejects h p"
      and "i < length paints"
      and "paint_type (paints ! i) = SOLID" and "boundColorId (paints ! i) = Some variableId"
      and "variableId \<noteq> []"
      and "retried (getVariableByIdAsync h variableId) = Inr (Some v)"
      and "?wid \<noteq> Some (variableCollectionId v)"
      and "wm (var_name v) = Some libVar"
      and "importedVariablesCache st (lib_key libVar) = Some imported
                \<or> importedVariablesCache st (lib_key libVar) = None
                  \<and> import_with_retry h (lib_key libVar) = Inr imported"
  proof -
    from that(1,2) have "read_slot slot (node_after ?run) = Some (map (rebound h wm ?wid st) paints)"
      by (simp add: slot)
    moreover from that(3) have "map (rebound h wm ?wid st) paints ! i
        = rebound h wm ?wid st (paints ! i)"
      by simp
    moreover have "rebound h wm ?wid st (paints ! i) = setBoundVariableForPaint h (paints ! i) imported"
      using that(4-10) by (rule rebound_bound)
    ultimately show ?thesis by simp
  qed
  from calls modes slot one show ?thesis by blast
qed

text \<open>
  \<open>nested_node\<close> lies under an instance: its fill is rebound from the local variable to
  the imported one, its stroke and its explicit mode stay.
\<close>

theorem processSingleNode_nested_in_instance_witness:
  "INSTANCE \<in> set (ancestors nested_node)
   \<and> read_slot Fills nested_node = Some [local_fill]
   \<and> \<not> lookup_rejects demo_host local_fill
   \<and> paint_type local_fill = SOLID \<and> boundColorId local_fill = Some ''VariableID:7:1''
   \<and> retried (getVariableByIdAsync demo_host ''VariableID:7:1'') = Inr (Some local_var)
   \<and> map_option coll_id (Some web_collection) \<noteq> Some (variableCollectionId local_var)
   \<and> catalog (var_name local_var) = Some primary
   \<and> importedVariablesCache empty_state (lib_key primary) = None
   \<and> import_with_retry demo_host (lib_key primary) = Inr web_var
   \<and> setBoundVariableForPaint demo_host local_fill web_var = web_fill
   \<and> mode_calls (processSingleNode demo_host catalog (Some web_collection) nested_node empty_state
        [1, 0]) = []
   \<and> explicitVariableModes
        (node_after (processSingleNode demo_host catalog (Some web_collection) nested_node
           empty_state [1, 0]))
       = Some [(''VariableCollectionId:7:0'', ''7:1'')]
   \<and> fills (node_after (processSingleNode demo_host catalog (Some web_collection) nested_node
        empty_state [1, 0]))
       = Some [web_fill]"
proof -
  let ?run = "processSingleNode demo_host catalog (Some web_collection) nested_node empty_state [1, 0]"
  have n: "INSTANCE \<in> set (ancestors nested_node)"
    by (simp add: nested_node_def)
  have r: "read_slot Fills nested_node = Some [local_fill]"
    by (simp add: nested_node_def)
  have l: "\<not> lookup_rejects demo_host local_fill"
    by (simp add: lookup_rejects_def local_fill_def find_local_var)
  have p: "paint_type local_fill = SOLID" "boundColorId local_fill = Some ''VariableID:7:1''"
    by (simp_all add: local_fill_def)
  have c: "map_option coll_id (Some web_collection) \<noteq> Some (variableCollectionId local_var)"
    by (simp add: web_collection_def local_var_def)
  have w: "catalog (var_name local_var) = Some primary"
    by (simp add: catalog_def local_var_def)
  have e: "importedVariablesCache empty_state (lib_key primary) = None"
    by (simp add: empty_state_def)
  have i: "import_with_retry demo_host (lib_key primary) = Inr web_var"
    by (simp add: primary_def import_primary)
  have s: "setBoundVariableForPaint demo_host local_fill web_var = web_fill"
    by (simp add: demo_host_def local_fill_def web_fill_def web_var_def)
  have m: "explicitVariableModes nested_node = Some [(''VariableCollectionId:7:0'', ''7:1'')]"
    by (simp add: nested_node_def)
  note t = processSingleNode_nested_in_instance [OF n, of demo_host catalog "Some web_collection"
      empty_state "[1, 0]" Fills "[local_fill]" 0 "''VariableID:7:1''" local_var primary web_var]
  from t have 1: "mode_calls ?run = []"
    by blast
  from t have "explicitVariableModes (node_after ?run) = explicitVariableModes nested_node"
    by blast
  with m have 2: "explicitVariableModes (node_after ?run) = Some [(''VariableCollectionId:7:0'', ''7:1'')]"
    by (simp only:)
  have h: "read_slot Fills nested_node = Some [local_fill]
      \<and> (\<forall>p\<in>set [local_fill]. \<not> lookup_rejects demo_host p)
      \<and> 0 < length [local_fill]
      \<and> paint_type ([local_fill] ! 0) = SOLID
      \<and> boundColorId ([local_fill] ! 0) = Some ''VariableID:7:1''
      \<and> ''VariableID:7:1'' \<noteq> []
      \<and> retried (getVariableByIdAsync demo_host ''VariableID:7:1'') = Inr (Some local_var)
      \<and> map_option coll_id (Some web_collection) \<noteq> Some (variableCollectionId local_var)
      \<and> catalog (var_name local_var) = Some primary
      \<and> (importedVariablesCache empty_state (lib_key primary) = Some web_var
          \<or> importedVariablesCache empty_state (lib_key primary) = None
            \<and> import_with_retry demo_host (lib_key primary) = Inr web_var)"
    using r l p find_local_var c w e i by simp
  from t h
  have "\<exists>updated. read_slot Fills (node_after ?run) = Some updated
      \<and> length updated = length [local_fill]
      \<and> updated ! 0 = setBoundVariableForPaint demo_host ([local_fill] ! 0) web_var"
    by blast
  then obtain updated where u: "fills (node_after ?run) = Some updated" "length updated = 1"
    "updated ! 0 = web_fill"
    using s by auto
  then have "updated = [web_fill]"
    by (cases updated) simp_all
  with u have 3: "fills (node_after ?run) = Some [web_fill]" by simp
  from n r l p find_local_var c w e i s 1 2 3 show ?thesis by blast
qed

subsection \<open>Mode reassignment\<close>

lemma perform_all_append: "perform_all (xs @ ys) ms = perform_all ys (perform_all xs ms)"
  by (induction xs arbitrary: ms) simp_all

lemma map_of_set_mode: "map_of (set_mode c m ms) c = Some m"
  by (induction ms) auto

lemma perform_all_sets:
  assumes "vs \<noteq> []"
  shows "map_of (perform_all (cs @ map (SetExplicitVariableModeForCollection web) vs) ms) (coll_id web)
           = Some (last vs)"
proof -
  from assms obtain front v where vs: "vs = front @ [v]"
    by (cases vs rule: rev_cases) auto
  have "perform_all (cs @ map (SetExplicitVariableModeForCollection web) vs) ms
      = set_mode (coll_id web) v
          (perform_all (cs @ map (SetExplicitVariableModeForCollection web) front) ms)"
    unfolding vs by (simp add: perform_all_append flip: append_assoc)
  then show ?thesis by (simp add: map_of_set_mode vs)
qed

lemma reassignVariableModes_calls:
  assumes "explicitVariableModes n = Some modes" and "modes \<noteq> []"
  shows "fst (reassignVariableModes h n (Some web)) =
           map ClearExplicitVariableModeForCollection
             (present (map (\<lambda>collId. fst (resolve_collection h collId)) (map fst modes)))
           @ map (SetExplicitVariableModeForCollection web) (map snd modes)"
  using assms by (simp add: reassignVariableModes_def Let_def comp_def)

text \<open>
  Claim C7 as stated fails. A node with explicit modes for two collections, both
  resolvable: after the step the target collection carries the second mode id only, and
  the first override is set nowhere. And where the collection of an entry cannot be
  resolved (here the lookup fails with status 500), that entry is not cleared.
\<close>

theorem reassignVariableModes_counterexample:
  "explicitVariableModes themed_node
     = Some [(''VariableCollectionId:7:0'', ''7:1''), (''VariableCollectionId:8:0'', ''8:2'')]
   \<and> \<not> isNestedInInstance themed_node
   \<and> fst (reassignVariableModes demo_host themed_node (Some web_collection))
     = [ClearExplicitVariableModeForCollection \<lparr>coll_id = ''VariableCollectionId:7:0''\<rparr>,
        ClearExplicitVariableModeForCollection \<lparr>coll_id = ''VariableCollectionId:8:0''\<rparr>,
        SetExplicitVariableModeForCollection web_collection ''7:1'',
        SetExplicitVariableModeForCollection web_collection ''8:2'']
   \<and> explicitVariableModes
       (after_calls (fst (reassignVariableModes demo_host themed_node (Some web_collection))) themed_node)
     = Some [(''VariableCollectionId:1:0'', ''8:2'')]
   \<and> explicitVariableModes
       (after_calls
          (fst (reassignVariableModes demo_host
                  (themed_node\<lparr>explicitVariableModes := Some [(''VariableCollectionId:9:0'', ''9:1'')]\<rparr>)
                  (Some web_collection)))
          (themed_node\<lparr>explicitVariableModes := Some [(''VariableCollectionId:9:0'', ''9:1'')]\<rparr>))
     = Some [(''VariableCollectionId:9:0'', ''9:1''), (''VariableCollectionId:1:0'', ''9:1'')]"
  by (simp add: themed_node_def isNestedInInstance_def reassignVariableModes_def find_collection
        after_calls_def web_collection_def resolve_collection_def retried_eval demo_host_def
        rate_limited_def)

text \<open>
  Claim C7, amended. For a node with a non-empty explicit mapping and a resolved target
  collection, the step clears the explicit mode of every collection of the mapping that
  the host resolves, in the mapping's order, and then sets on the target collection
  every mode id of the original mapping, in order. Each of these calls replaces the one
  before, so the target collection ends with the mode id of the mapping's last entry.
  For a mapping with a single entry whose collection resolves, the result is that one
  override moved to the target collection with its mode id.
\<close>

theorem reassignVariableModes_relocates_last:
  assumes "explicitVariableModes n = Some modes" and "modes \<noteq> []"
  shows "fst (reassignVariableModes h n (Some web)) =
           map ClearExplicitVariableModeForCollection
             (present (map (\<lambda>collId. fst (resolve_collection h collId)) (map fst modes)))
           @ map (SetExplicitVariableModeForCollection web) (map snd modes)
       \<and> map_of (perform_all (fst (reassignVariableModes h n (Some web))) modes) (coll_id web)
           = Some (snd (last modes))
       \<and> (\<forall>c m. modes = [(c, m)] \<and> fst (resolve_collection h c) = Some \<lparr>coll_id = c\<rparr> \<longrightarrow>
            perform_all (fst (reassignVariableModes h n (Some web))) modes = [(coll_id web, m)])"
proof (intro conjI allI impI)
  show calls: "fst (reassignVariableModes h n (Some web)) =
           map ClearExplicitVariableModeForCollection
             (present (map (\<lambda>collId. fst (resolve_collection h collId)) (map fst modes)))
           @ map (SetExplicitVariableModeForCollection web) (map snd modes)"
    using assms by (rule reassignVariableModes_calls)
  from assms(2) have "map snd modes \<noteq> []" by simp
  from perform_all_sets [OF this]
  show "map_of (perform_all (fst (reassignVariableModes h n (Some web))) modes) (coll_id web)
           = Some (snd (last modes))"
    using assms(2) by (simp add: calls last_map)
  fix c m
  assume "modes = [(c, m)] \<and> fst (resolve_collection h c) = Some \<lparr>coll_id = c\<rparr>"
  then show "perform_all (fst (reassignVariableModes h n (Some web))) modes = [(coll_id web, m)]"
    by (simp add: calls)
qed

text \<open>
  A node with one explicit mode: cleared on its collection, set on the target.
\<close>

theorem reassignVariableModes_relocates_last_witness:
  "explicitVariableModes single_mode_node = Some [(''VariableCollectionId:7:0'', ''7:1'')]
   \<and> [(''VariableCollectionId:7:0'', ''7:1'')] \<noteq> []
   \<and> fst (resolve_collection demo_host ''VariableCollectionId:7:0'')
       = Some \<lparr>coll_id = ''VariableCollectionId:7:0''\<rparr>
   \<and> fst (reassignVariableModes demo_host single_mode_node (Some web_collection))
       = [ClearExplicitVariableModeForCollection \<lparr>coll_id = ''VariableCollectionId:7:0''\<rparr>,
          SetExplicitVariableModeForCollection web_collection ''7:1'']
   \<and> perform_all (fst (reassignVariableModes demo_host single_mode_node (Some web_collection)))
        [(''VariableCollectionId:7:0'', ''7:1'')]
       = [(''VariableCollectionId:1:0'', ''7:1'')]"
proof -
  let ?modes = "[(''VariableCollectionId:7:0'', ''7:1'')]"
  have m: "explicitVariableModes single_mode_node = Some ?modes"
    by (simp add: single_mode_node_def)
  have ne: "?modes \<noteq> []" by simp
  have r: "fst (resolve_collection demo_host ''VariableCollectionId:7:0'')
       = Some \<lparr>coll_id = ''VariableCollectionId:7:0''\<rparr>"
    by (simp add: find_collection)
  note t = reassignVariableModes_relocates_last [OF m ne, of demo_host web_collection]
  from t r have 1: "fst (reassignVariableModes demo_host single_mode_node (Some web_collection))
       = [ClearExplicitVariableModeForCollection \<lparr>coll_id = ''VariableCollectionId:7:0''\<rparr>,
          SetExplicitVariableModeForCollection web_collection ''7:1'']"
    by simp
  from t r have "perform_all (fst (reassignVariableModes demo_host single_mode_node (Some web_collection)))
        ?modes = [(coll_id web_collection, ''7:1'')]"
    by blast
  then have 2: "perform_all (fst (reassignVariableModes demo_host single_mode_node (Some web_collection)))
        ?modes = [(''VariableCollectionId:1:0'', ''7:1'')]"
    by (simp add: web_collection_def)
  from m ne r 1 2 show ?thesis by blast
qed

subsection \<open>Paint rebinding without a target collection\<close>

text \<open>
  Claim C10. When \<^verbatim>\<open>webCollection\<close> is \<^verbatim>\<open>null\<close>, \<^verbatim>\<open>webCollectionId\<close> is \<^verbatim>\<open>null\<close> and the
  skip is not taken: for a solid paint with a bound variable that the host resolves, the
  variable's name is looked up in the catalog, and on a match whose import yields a
  variable the paint is rebound to it, whatever collection the resolved variable
  belongs to; and so the callback of that paint settles under \<^verbatim>\<open>Promise.all\<close>, in
  whatever order the callbacks of the slot are resumed.
\<close>

theorem rebind_without_target:
  assumes "webCollection = None"
    and "paint_type p = SOLID" and "boundColorId p = Some variableId" and "variableId \<noteq> []"
    and "retried (getVariableByIdAsync h variableId) = Inr (Some v)"
    and "webVariablesMap (var_name v) = Some libVar"
    and "getImportedVariable (import_with_retry h) libVar st = (Some imported, st')"
  shows "rebind h webVariablesMap (map_option coll_id webCollection) p st
           = (Inr (setBoundVariableForPaint h p imported), st')
       \<and> (i < length paints \<and> paints ! i = p \<longrightarrow>
            entries (settle_all h webVariablesMap (map_option coll_id webCollection) schedule
                       \<lparr>entries = map start paints, store = st, first_rejection = None\<rparr>) ! i
              = Done (Inr (setBoundVariableForPaint h p imported)))"
proof -
  from assms have "rebind h webVariablesMap (map_option coll_id webCollection) p st
           = (Inr (setBoundVariableForPaint h p imported), st')"
    by (simp add: rebind_def falsy_def)
  then show ?thesis by (simp add: settle_all_entries)
qed

text \<open>
  With no collection lookup available \<^verbatim>\<open>main\<close> ends with \<^verbatim>\<open>webCollection = null\<close>; a fill
  already bound to the catalog's own variable is then resolved, matched, imported and
  rebound all the same.
\<close>

theorem rebind_without_target_witness:
  "fst (main_webCollection offline_host (Some primary) empty_state) = None
   \<and> paint_type web_fill = SOLID \<and> boundColorId web_fill = Some ''VariableID:1:1''
   \<and> retried (getVariableByIdAsync offline_host ''VariableID:1:1'') = Inr (Some web_var)
   \<and> catalog (var_name web_var) = Some primary
   \<and> variableCollectionId web_var = ''VariableCollectionId:1:0''
   \<and> getImportedVariable (import_with_retry offline_host) primary empty_state
       = (Some web_var, \<lparr>importedVariablesCache = [''k1'' \<mapsto> web_var], loads = 1, console = []\<rparr>)
   \<and> rebind offline_host catalog
        (map_option coll_id (fst (main_webCollection offline_host (Some primary) empty_state)))
        web_fill empty_state
       = (Inr (setBoundVariableForPaint offline_host web_fill web_var),
          \<lparr>importedVariablesCache = [''k1'' \<mapsto> web_var], loads = 1, console = []\<rparr>)
   \<and> entries (settle_all offline_host catalog
        (map_option coll_id (fst (main_webCollection offline_host (Some primary) empty_state))) [0]
        \<lparr>entries = map start [plain_stroke, web_fill], store = empty_state, first_rejection = None\<rparr>) ! 1
       = Done (Inr (setBoundVariableForPaint offline_host web_fill web_var))"
proof -
  let ?st' = "\<lparr>importedVariablesCache = [''k1'' \<mapsto> web_var], loads = 1, console = []\<rparr>"
  have i: "import_with_retry offline_host ''k1'' = Inr web_var"
    by (simp add: import_with_retry_def retried_eval offline_host_def demo_host_def)
  have g: "getImportedVariable (import_with_retry offline_host) primary empty_state = (Some web_var, ?st')"
    by (simp add: getImportedVariable_def getImportedVariable_settled_def primary_def empty_state_def i)
  have w: "fst (main_webCollection offline_host (Some primary) empty_state) = None"
    by (simp add: main_webCollection_def g)
       (simp add: retried_eval offline_host_def rate_limited_def)
  have p: "paint_type web_fill = SOLID" "boundColorId web_fill = Some ''VariableID:1:1''"
    by (simp_all add: web_fill_def)
  have v: "retried (getVariableByIdAsync offline_host ''VariableID:1:1'') = Inr (Some web_var)"
    by (simp add: retried_eval offline_host_def demo_host_def)
  have c: "catalog (var_name web_var) = Some primary"
    by (simp add: catalog_def web_var_def)
  have id: "variableCollectionId web_var = ''VariableCollectionId:1:0''"
    by (simp add: web_var_def)
  have ne: "''VariableID:1:1'' \<noteq> []" by simp
  note t = rebind_without_target [of "fst (main_webCollection offline_host (Some primary) empty_state)"
      web_fill "''VariableID:1:1''" offline_host web_var catalog primary empty_state web_var ?st'
      1 "[plain_stroke, web_fill]" "[0]", OF w p ne v c g]
  have "1 < length [plain_stroke, web_fill] \<and> [plain_stroke, web_fill] ! 1 = web_fill" by simp
  with t have "entries (settle_all offline_host catalog
        (map_option coll_id (fst (main_webCollection offline_host (Some primary) empty_state))) [0]
        \<lparr>entries = map start [plain_stroke, web_fill], store = empty_state, first_rejection = None\<rparr>) ! 1
       = Done (Inr (setBoundVariableForPaint offline_host web_fill web_var))"
    by blast
  with t w p v c id g show ?thesis by blast
qed


end
